theory Spec2Isabelle
  imports Main
begin

section \<open>Python values, tokens and errors\<close>

text \<open>
  The source is \<^verbatim>\<open>src/json_parser.py\<close>: a lexer class \<^verbatim>\<open>JSONLexer\<close>, a recursive-descent
  parser class \<^verbatim>\<open>JSONParser\<close> and the entry point \<^verbatim>\<open>parse_json\<close>.

  Characters. A Python \<^verbatim>\<open>str\<close> is a sequence of code points. The input text is modelled
  as a \<^typ>\<open>string\<close> in which every \<^typ>\<open>char\<close> stands for the code point of the same
  number (0 to 255), so the model covers every input text over these code points, with
  Python's \<^verbatim>\<open>isdigit\<close> and \<^verbatim>\<open>isalpha\<close> tabulated on them. A decoded string may hold
  any code point (the escape \<^verbatim>\<open>\u\<close> produces them), so it is a list of code points.
\<close>

type_synonym pystr = "nat list"

definition ustr :: "string \<Rightarrow> pystr" where
  "ustr s = map of_char s"

abbreviation DQUOTE :: char where "DQUOTE \<equiv> CHR 0x22"
abbreviation BACKSLASH :: char where "BACKSLASH \<equiv> CHR 0x5C"
abbreviation NEWLINE :: char where "NEWLINE \<equiv> CHR 0x0A"

datatype TokenType =
    STRING | NUMBER | TRUE | FALSE | NULL
  | LBRACE | RBRACE | LBRACKET | RBRACKET | COLON | COMMA
  | EOF | WHITESPACE

text \<open>The \<^verbatim>\<open>.value\<close> of an enumeration member, as the error messages print it.\<close>

fun TokenType_value :: "TokenType \<Rightarrow> string" where
  "TokenType_value STRING = ''STRING''"
| "TokenType_value NUMBER = ''NUMBER''"
| "TokenType_value TRUE = ''TRUE''"
| "TokenType_value FALSE = ''FALSE''"
| "TokenType_value NULL = ''NULL''"
| "TokenType_value LBRACE = ''LBRACE''"
| "TokenType_value RBRACE = ''RBRACE''"
| "TokenType_value LBRACKET = ''LBRACKET''"
| "TokenType_value RBRACKET = ''RBRACKET''"
| "TokenType_value COLON = ''COLON''"
| "TokenType_value COMMA = ''COMMA''"
| "TokenType_value EOF = ''EOF''"
| "TokenType_value WHITESPACE = ''WHITESPACE''"

text \<open>
  The Python objects that occur as token payloads and as parse results (\<^verbatim>\<open>Any\<close> in the source).
  A \<^verbatim>\<open>float\<close> is kept as the decimal lexeme it was converted from: no claim depends on
  floating-point arithmetic. A \<^verbatim>\<open>dict\<close> is an association list in insertion order.
\<close>

datatype pyvalue =
    PNone
  | PBool bool
  | PInt int
  | PFloat string
  | PStr pystr
  | PList "pyvalue list"
  | PDict "(pyvalue \<times> pyvalue) list"

text \<open>The dataclass \<^verbatim>\<open>Token(type, value, line, column)\<close>.\<close>

datatype Token = Token (ttype: TokenType) (tvalue: pyvalue) (tline: nat) (tcolumn: nat)

text \<open>
  The exceptions that can leave the program. Both \<^verbatim>\<open>error\<close> methods raise
  \<^verbatim>\<open>SyntaxError\<close> with the message \<^verbatim>\<open>"Lexer error at line L, column C: MSG"\<close>
  or \<^verbatim>\<open>"Parse error at line L, column C: MSG"\<close>; they are kept apart by constructor,
  with \<open>L\<close>, \<open>C\<close> and \<open>MSG\<close> as arguments. The other four are raised by the
  interpreter itself; \<^verbatim>\<open>RecursionError\<close> is what a call raises when the call stack has
  reached the recursion limit.
\<close>

datatype pyerror =
    LexerError nat nat string
  | ParseError nat nat string
  | TypeError
  | ValueError
  | IndexError
  | RecursionError

section \<open>Built-in functions of Python used by the lexer\<close>

definition isdigit :: "char \<Rightarrow> bool" where
  "isdigit c = (let n = (of_char c :: nat) in
     (48 \<le> n \<and> n \<le> 57) \<or> n = 178 \<or> n = 179 \<or> n = 185)"

definition isalpha :: "char \<Rightarrow> bool" where
  "isalpha c = (let n = (of_char c :: nat) in
     (65 \<le> n \<and> n \<le> 90) \<or> (97 \<le> n \<and> n \<le> 122) \<or> n = 170 \<or> n = 181 \<or> n = 186
     \<or> (192 \<le> n \<and> n \<le> 214) \<or> (216 \<le> n \<and> n \<le> 246) \<or> (248 \<le> n \<and> n \<le> 255))"

text \<open>
  \<^verbatim>\<open>int(s, base)\<close> on a \<^verbatim>\<open>str\<close>, for the bases 10 and 16 the lexer uses: surrounding
  white space is dropped, a sign is allowed, base 16 allows the prefix \<^verbatim>\<open>0x\<close> or
  \<^verbatim>\<open>0X\<close>, and single underscores may separate digits. \<open>None\<close> stands for
  \<^verbatim>\<open>ValueError\<close>. In a base that is not a power of two the interpreter refuses a literal
  of more than \<^verbatim>\<open>sys.get_int_max_str_digits()\<close> digits, underscores not counted; the limit
  is 4300 unless the program changes it, which this one does not.
\<close>

definition int_max_str_digits :: nat where
  "int_max_str_digits = 4300"

definition int_isspace :: "char \<Rightarrow> bool" where
  "int_isspace c = (let n = (of_char c :: nat) in
     (9 \<le> n \<and> n \<le> 13) \<or> n = 32 \<or> n = 133 \<or> n = 160)"

definition digit_value :: "char \<Rightarrow> nat option" where
  "digit_value c = (let n = (of_char c :: nat) in
     if 48 \<le> n \<and> n \<le> 57 then Some (n - 48)
     else if 97 \<le> n \<and> n \<le> 122 then Some (n - 97 + 10)
     else if 65 \<le> n \<and> n \<le> 90 then Some (n - 65 + 10)
     else None)"

definition is_digit_of :: "nat \<Rightarrow> char \<Rightarrow> bool" where
  "is_digit_of base c = (case digit_value c of None \<Rightarrow> False | Some d \<Rightarrow> d < base)"

text \<open>
  The digits of the literal, most significant first: \<open>prev\<close> tells whether the
  previous character was an underscore. Two underscores in a row and a trailing
  underscore are refused.
\<close>

fun scan_digits :: "nat \<Rightarrow> string \<Rightarrow> bool \<Rightarrow> nat \<Rightarrow> nat option" where
  "scan_digits base [] prev acc = (if prev then None else Some acc)"
| "scan_digits base (c # cs) prev acc =
     (if c = CHR ''_'' then (if prev then None else scan_digits base cs True acc)
      else (case digit_value c of
              None \<Rightarrow> None
            | Some d \<Rightarrow> scan_digits base cs False (acc * base + d)))"

definition py_int :: "string \<Rightarrow> nat \<Rightarrow> int option" where
  "py_int s base =
    (let s1 = dropWhile int_isspace s;
         (negative, s2) = (case s1 of
              c # cs \<Rightarrow> if c = CHR ''+'' then (False, cs)
                        else if c = CHR ''-'' then (True, cs) else (False, s1)
            | [] \<Rightarrow> (False, s1));
         s3 = (case s2 of
              c0 # c1 # cs \<Rightarrow>
                if c0 = CHR ''0'' \<and> base = 16 \<and> (c1 = CHR ''x'' \<or> c1 = CHR ''X'')
                then (case cs of c2 # cs' \<Rightarrow> if c2 = CHR ''_'' then cs' else cs | [] \<Rightarrow> cs)
                else s2
            | _ \<Rightarrow> s2);
         body = takeWhile (\<lambda>c. is_digit_of base c \<or> c = CHR ''_'') s3;
         rest = dropWhile (\<lambda>c. is_digit_of base c \<or> c = CHR ''_'') s3
     in if body = [] \<or> hd body = CHR ''_'' \<or> \<not> list_all int_isspace rest then None
        else if base \<notin> {2, 4, 8, 16, 32}
          \<and> int_max_str_digits < length (filter (\<lambda>c. c \<noteq> CHR ''_'') body) then None
        else (case scan_digits base body False 0 of
                None \<Rightarrow> None
              | Some n \<Rightarrow> Some (if negative then - int n else int n)))"

text \<open>\<^verbatim>\<open>chr(n)\<close>: the code point \<open>n\<close>, or \<^verbatim>\<open>ValueError\<close> outside \<^verbatim>\<open>range(0x110000)\<close>.\<close>

definition py_chr :: "int \<Rightarrow> nat option" where
  "py_chr n = (if 0 \<le> n \<and> n < 0x110000 then Some (nat n) else None)"

text \<open>
  \<^verbatim>\<open>float(s)\<close> on the lexemes \<^verbatim>\<open>tokenize_number\<close> builds, which hold only a leading
  minus sign, characters that satisfy \<^verbatim>\<open>isdigit\<close>, a point, an exponent letter and
  an exponent sign. Python accepts such a lexeme when its digits are ASCII, the mantissa
  has a digit before or after the point, and an exponent letter is followed by at least one
  digit. \<open>None\<close> stands for \<^verbatim>\<open>ValueError\<close>.
\<close>

definition ascii_digit :: "char \<Rightarrow> bool" where
  "ascii_digit c = (let n = (of_char c :: nat) in 48 \<le> n \<and> n \<le> 57)"

definition py_float :: "string \<Rightarrow> string option" where
  "py_float s =
    (let s1 = (case s of c # cs \<Rightarrow> if c = CHR ''-'' \<or> c = CHR ''+'' then cs else s | [] \<Rightarrow> s);
         ip = takeWhile ascii_digit s1;
         s2 = dropWhile ascii_digit s1;
         (fp, s3) = (case s2 of
              c # cs \<Rightarrow> if c = CHR ''.''
                        then (takeWhile ascii_digit cs, dropWhile ascii_digit cs)
                        else ([], s2)
            | [] \<Rightarrow> ([], s2));
         exp_ok = (case s3 of
              [] \<Rightarrow> True
            | c # cs \<Rightarrow>
                (c = CHR ''e'' \<or> c = CHR ''E'') \<and>
                (let ds = (case cs of
                       d # ds' \<Rightarrow> if d = CHR ''+'' \<or> d = CHR ''-'' then ds' else cs
                     | [] \<Rightarrow> cs)
                 in ds \<noteq> [] \<and> list_all ascii_digit ds))
     in if (ip \<noteq> [] \<or> fp \<noteq> []) \<and> exp_ok then Some s else None)"

section \<open>The lexer\<close>

text \<open>The fields of \<^verbatim>\<open>JSONLexer\<close>; \<^verbatim>\<open>__init__\<close> sets them as \<open>JSONLexer_init\<close> does.\<close>

record JSONLexer =
  lx_text :: string
  lx_pos :: nat
  lx_line :: nat
  lx_column :: nat
  lx_tokens :: "Token list"

definition JSONLexer_init :: "string \<Rightarrow> JSONLexer" where
  "JSONLexer_init t =
     \<lparr>lx_text = t, lx_pos = 0, lx_line = 1, lx_column = 1, lx_tokens = []\<rparr>"

definition lexer_error :: "JSONLexer \<Rightarrow> string \<Rightarrow> pyerror" where
  "lexer_error s msg = LexerError (lx_line s) (lx_column s) msg"

text \<open>\<^verbatim>\<open>peek()\<close>: the lexer only calls it with the default offset 0.\<close>

definition lexer_peek :: "JSONLexer \<Rightarrow> char option" where
  "lexer_peek s =
     (if lx_pos s < length (lx_text s) then Some (lx_text s ! lx_pos s) else None)"

definition lexer_advance :: "JSONLexer \<Rightarrow> char option \<times> JSONLexer" where
  "lexer_advance s =
     (if lx_pos s < length (lx_text s) then
        (let char = lx_text s ! lx_pos s;
             s1 = s\<lparr>lx_pos := lx_pos s + 1\<rparr>
         in (Some char,
             if char = NEWLINE then s1\<lparr>lx_line := lx_line s1 + 1, lx_column := 1\<rparr>
             else s1\<lparr>lx_column := lx_column s1 + 1\<rparr>))
      else (None, s))"

definition append_token :: "JSONLexer \<Rightarrow> Token \<Rightarrow> JSONLexer" where
  "append_token s t = s\<lparr>lx_tokens := lx_tokens s @ [t]\<rparr>"

lemma lexer_advance_text [simp]: "lx_text (snd (lexer_advance s)) = lx_text s"
  by (simp add: lexer_advance_def Let_def)

lemma lexer_advance_pos_le: "lx_pos s \<le> lx_pos (snd (lexer_advance s))"
  by (simp add: lexer_advance_def Let_def)

lemma lexer_advance_pos_Some:
  "lexer_peek s = Some c \<Longrightarrow> lx_pos (snd (lexer_advance s)) = Suc (lx_pos s)"
  by (simp add: lexer_advance_def lexer_peek_def Let_def split: if_splits)

lemma lexer_advance_measure:
  "lx_pos s < length (lx_text s) \<Longrightarrow>
   length (lx_text s) - lx_pos (snd (lexer_advance s)) < length (lx_text s) - lx_pos s"
  by (simp add: lexer_advance_def Let_def)

lemma lexer_advance2_measure:
  "lx_pos s < length (lx_text s) \<Longrightarrow>
   length (lx_text s) - lx_pos (snd (lexer_advance (snd (lexer_advance s))))
     < length (lx_text s) - lx_pos s"
proof -
  assume lt: "lx_pos s < length (lx_text s)"
  then have "lx_pos (snd (lexer_advance s)) = Suc (lx_pos s)"
    by (simp add: lexer_advance_def Let_def)
  with lexer_advance_pos_le [of "snd (lexer_advance s)"]
  have "lx_pos s < lx_pos (snd (lexer_advance (snd (lexer_advance s))))" by simp
  with lt show ?thesis by simp
qed

subsection \<open>String literals\<close>

text \<open>
  \<^verbatim>\<open>for _ in range(4): hex_digits += self.advance()\<close>. At the end of the input
  \<^verbatim>\<open>advance\<close> returns \<^verbatim>\<open>None\<close>, and adding \<^verbatim>\<open>None\<close> to a \<^verbatim>\<open>str\<close> raises
  \<^verbatim>\<open>TypeError\<close>.
\<close>

fun read_hex_digits :: "nat \<Rightarrow> JSONLexer \<Rightarrow> string \<Rightarrow> pyerror + (JSONLexer \<times> string)" where
  "read_hex_digits 0 s hex_digits = Inr (s, hex_digits)"
| "read_hex_digits (Suc n) s hex_digits =
     (case lexer_advance s of
        (None, s') \<Rightarrow> Inl TypeError
      | (Some c, s') \<Rightarrow> read_hex_digits n s' (hex_digits @ [c]))"

lemma read_hex_digits_state:
  "read_hex_digits n s h = Inr (s', h') \<Longrightarrow> lx_text s' = lx_text s \<and> lx_pos s \<le> lx_pos s'"
proof (induction n arbitrary: s h)
  case 0
  then show ?case by simp
next
  case (Suc n)
  obtain r s1 where adv: "lexer_advance s = (r, s1)" by (cases "lexer_advance s")
  with Suc.prems obtain c where r: "r = Some c"
    and rec: "read_hex_digits n s1 (h @ [c]) = Inr (s', h')"
    by (cases r) auto
  from Suc.IH [OF rec] have "lx_text s' = lx_text s1" "lx_pos s1 \<le> lx_pos s'" by simp_all
  moreover from adv have "lx_text s1 = lx_text s" "lx_pos s \<le> lx_pos s1"
    using lexer_advance_text [of s] lexer_advance_pos_le [of s] by simp_all
  ultimately show ?case by simp
qed

text \<open>
  The branch of \<^verbatim>\<open>tokenize_string\<close> for a backslash: it consumes the backslash and the
  escaped character and returns the code point that is appended to \<^verbatim>\<open>result\<close>.
  An escape that is not recognised is reported with the f-string
  \<^verbatim>\<open>f"Invalid escape sequence: \\{escaped}"\<close>, which prints \<^verbatim>\<open>None\<close> when the input
  ended after the backslash. \<^verbatim>\<open>int(hex_digits, 16)\<close> and \<^verbatim>\<open>chr\<close> raise
  \<^verbatim>\<open>ValueError\<close>, which nothing catches.
\<close>

definition escape_branch :: "JSONLexer \<Rightarrow> pyerror + (JSONLexer \<times> nat)" where
  "escape_branch s =
     (let s1 = snd (lexer_advance s);
          escaped = fst (lexer_advance s1);
          s2 = snd (lexer_advance s1)
      in if escaped = Some DQUOTE then Inr (s2, 0x22)
         else if escaped = Some BACKSLASH then Inr (s2, 0x5C)
         else if escaped = Some (CHR ''/'') then Inr (s2, 0x2F)
         else if escaped = Some (CHR ''b'') then Inr (s2, 0x08)
         else if escaped = Some (CHR ''f'') then Inr (s2, 0x0C)
         else if escaped = Some (CHR ''n'') then Inr (s2, 0x0A)
         else if escaped = Some (CHR ''r'') then Inr (s2, 0x0D)
         else if escaped = Some (CHR ''t'') then Inr (s2, 0x09)
         else if escaped = Some (CHR ''u'') then
           (case read_hex_digits 4 s2 [] of
              Inl e \<Rightarrow> Inl e
            | Inr (s3, hex_digits) \<Rightarrow>
                (case py_int hex_digits 16 of
                   None \<Rightarrow> Inl ValueError
                 | Some n \<Rightarrow>
                     (case py_chr n of
                        None \<Rightarrow> Inl ValueError
                      | Some cp \<Rightarrow> Inr (s3, cp))))
         else Inl (lexer_error s2
                (''Invalid escape sequence: '' @ [BACKSLASH] @
                   (case escaped of None \<Rightarrow> ''None'' | Some e \<Rightarrow> [e]))))"

lemma lexer_advance_tokens [simp]: "lx_tokens (snd (lexer_advance s)) = lx_tokens s"
  by (simp add: lexer_advance_def Let_def)

lemma read_hex_digits_tokens:
  "read_hex_digits n s h = Inr (s', h') \<Longrightarrow> lx_tokens s' = lx_tokens s"
proof (induction n arbitrary: s h)
  case 0
  then show ?case by simp
next
  case (Suc n)
  obtain r s1 where adv: "lexer_advance s = (r, s1)" by (cases "lexer_advance s")
  with Suc.prems obtain c where "r = Some c"
    and rec: "read_hex_digits n s1 (h @ [c]) = Inr (s', h')"
    by (cases r) auto
  from Suc.IH [OF rec] adv lexer_advance_tokens [of s] show ?case by simp
qed

lemma escape_branch_state:
  assumes "escape_branch s = Inr (s', cp)" and "lx_pos s < length (lx_text s)"
  shows "lx_text s' = lx_text s \<and> lx_pos s < lx_pos s' \<and> lx_tokens s' = lx_tokens s"
proof -
  define s2 where "s2 = snd (lexer_advance (snd (lexer_advance s)))"
  have p1: "lx_pos (snd (lexer_advance s)) = Suc (lx_pos s)"
    using assms(2) by (simp add: lexer_advance_def Let_def)
  have s2: "lx_text s2 = lx_text s" "lx_pos s < lx_pos s2" "lx_tokens s2 = lx_tokens s"
    using p1 lexer_advance_pos_le [of "snd (lexer_advance s)"] by (simp_all add: s2_def)
  from assms(1) have "s' = s2 \<or> (\<exists>h. read_hex_digits 4 s2 [] = Inr (s', h))"
    unfolding escape_branch_def Let_def s2_def
    by (simp split: if_splits sum.splits option.splits prod.splits)
  then show ?thesis
  proof
    assume "s' = s2"
    with s2 show ?thesis by simp
  next
    assume "\<exists>h. read_hex_digits 4 s2 [] = Inr (s', h)"
    then obtain h where rd: "read_hex_digits 4 s2 [] = Inr (s', h)" ..
    from read_hex_digits_state [OF rd] read_hex_digits_tokens [OF rd] s2
    show ?thesis by simp
  qed
qed

text \<open>
  The \<^verbatim>\<open>while self.peek() != '"'\<close> loop of \<^verbatim>\<open>tokenize_string\<close>, with the local
  \<^verbatim>\<open>result\<close> as accumulator: every character other than the quote and the backslash
  is appended as it is.
\<close>

function string_loop :: "JSONLexer \<Rightarrow> pystr \<Rightarrow> pyerror + (JSONLexer \<times> pystr)" where
  "string_loop s result =
     (case lexer_peek s of
        None \<Rightarrow> Inl (lexer_error s ''Unterminated string'')
      | Some char \<Rightarrow>
          if char = DQUOTE then Inr (s, result)
          else if char = BACKSLASH then
            (case escape_branch s of
               Inl e \<Rightarrow> Inl e
             | Inr (s', cp) \<Rightarrow> string_loop s' (result @ [cp]))
          else string_loop (snd (lexer_advance s)) (result @ [of_char char]))"
  by pat_completeness auto
termination
proof (relation "measure (\<lambda>(s, result). length (lx_text s) - lx_pos s)", goal_cases)
  case 1
  show ?case by simp
next
  case (2 s result char x s' cp)
  then have lt: "lx_pos s < length (lx_text s)"
    by (simp add: lexer_peek_def split: if_splits)
  from 2 have "escape_branch s = Inr (s', cp)" by simp
  from escape_branch_state [OF this lt]
  have "lx_text s' = lx_text s" and "lx_pos s < lx_pos s'" by simp_all
  with lt show ?case by (simp add: diff_less_mono2)
next
  case (3 s result char)
  then have "lx_pos s < length (lx_text s)"
    by (simp add: lexer_peek_def split: if_splits)
  then show ?case by (simp add: lexer_advance_measure)
qed

declare string_loop.simps [simp del]

lemma string_loop_state:
  "string_loop s result = Inr (s', result') \<Longrightarrow>
   lx_text s' = lx_text s \<and> lx_pos s \<le> lx_pos s' \<and> lx_tokens s' = lx_tokens s"
proof (induction s result arbitrary: s' result' rule: string_loop.induct)
  case (1 s result)
  show ?case
  proof (cases "lexer_peek s")
    case None
    with "1.prems" show ?thesis by (simp add: string_loop.simps [of s])
  next
    case (Some char)
    then have lt: "lx_pos s < length (lx_text s)"
      by (simp add: lexer_peek_def split: if_splits)
    consider (quote) "char = DQUOTE" | (esc) "char \<noteq> DQUOTE" "char = BACKSLASH"
      | (other) "char \<noteq> DQUOTE" "char \<noteq> BACKSLASH" by blast
    then show ?thesis
    proof cases
      case quote
      with Some "1.prems" show ?thesis by (simp add: string_loop.simps [of s])
    next
      case esc
      with Some "1.prems" obtain s1 cp where eb: "escape_branch s = Inr (s1, cp)"
        and rec: "string_loop s1 (result @ [cp]) = Inr (s', result')"
        by (simp add: string_loop.simps [of s] split: sum.splits prod.splits)
      from "1.IH"(1) [OF Some esc(1) esc(2) eb refl rec]
        escape_branch_state [OF eb lt]
      show ?thesis by simp
    next
      case other
      with Some "1.prems"
      have rec: "string_loop (snd (lexer_advance s)) (result @ [of_char char]) = Inr (s', result')"
        by (simp add: string_loop.simps [of s])
      from "1.IH"(2) [OF Some other rec] lexer_advance_pos_le [of s]
      show ?thesis by simp
    qed
  qed
qed

definition tokenize_string :: "JSONLexer \<Rightarrow> pyerror + JSONLexer" where
  "tokenize_string s =
     (let start_line = lx_line s;
          start_col = lx_column s;
          s1 = snd (lexer_advance s)
      in case string_loop s1 [] of
           Inl e \<Rightarrow> Inl e
         | Inr (s2, result) \<Rightarrow>
             Inr (append_token (snd (lexer_advance s2))
                    (Token STRING (PStr result) start_line start_col)))"

subsection \<open>Numbers and keywords\<close>

text \<open>
  \<^verbatim>\<open>while self.peek() and self.peek().p(): result += self.advance()\<close>, for
  \<open>p\<close> one of \<^verbatim>\<open>isdigit\<close> and \<^verbatim>\<open>isalpha\<close>.
\<close>

function scan_while :: "(char \<Rightarrow> bool) \<Rightarrow> JSONLexer \<Rightarrow> string \<Rightarrow> JSONLexer \<times> string" where
  "scan_while p s result =
     (case lexer_peek s of
        None \<Rightarrow> (s, result)
      | Some c \<Rightarrow>
          if p c then scan_while p (snd (lexer_advance s)) (result @ [c])
          else (s, result))"
  by pat_completeness auto
termination
  apply (relation "measure (\<lambda>(p, s, result). length (lx_text s) - lx_pos s)")
  apply (auto simp: lexer_peek_def lexer_advance_measure split: if_splits)
  done

declare scan_while.simps [simp del]

text \<open>
  \<^verbatim>\<open>tokenize_number\<close>, one definition for each of its four parts (the source marks them
  with comments). The two tests \<^verbatim>\<open>self.peek() in 'eE'\<close> and \<^verbatim>\<open>self.peek() in '+-'\<close>
  apply \<^verbatim>\<open>in\<close> to the result of \<^verbatim>\<open>peek\<close>, which is \<^verbatim>\<open>None\<close> at the end of the
  input: Python then raises \<^verbatim>\<open>TypeError\<close> (the left operand of \<^verbatim>\<open>in\<close> on a
  \<^verbatim>\<open>str\<close> must be a \<^verbatim>\<open>str\<close>). The conversion is inside
  \<^verbatim>\<open>try ... except ValueError\<close>, which turns its failure into a lexer error.
\<close>

definition optional_minus :: "JSONLexer \<Rightarrow> string \<Rightarrow> JSONLexer \<times> string" where
  "optional_minus s result =
     (if lexer_peek s = Some (CHR ''-'')
      then (snd (lexer_advance s), result @ [CHR ''-''])
      else (s, result))"

definition integer_part :: "JSONLexer \<Rightarrow> string \<Rightarrow> JSONLexer \<times> string" where
  "integer_part s result =
     (if lexer_peek s = Some (CHR ''0'')
      then (snd (lexer_advance s), result @ [CHR ''0''])
      else scan_while isdigit s result)"

definition decimal_part :: "JSONLexer \<Rightarrow> string \<Rightarrow> JSONLexer \<times> string" where
  "decimal_part s result =
     (if lexer_peek s = Some (CHR ''.'')
      then scan_while isdigit (snd (lexer_advance s)) (result @ [CHR ''.''])
      else (s, result))"

definition exponent_part :: "JSONLexer \<Rightarrow> string \<Rightarrow> pyerror + (JSONLexer \<times> string)" where
  "exponent_part s result =
     (case lexer_peek s of
        None \<Rightarrow> Inl TypeError
      | Some c \<Rightarrow>
          if c = CHR ''e'' \<or> c = CHR ''E'' then
            (let s1 = snd (lexer_advance s); r1 = result @ [c]
             in case lexer_peek s1 of
                  None \<Rightarrow> Inl TypeError
                | Some d \<Rightarrow>
                    if d = CHR ''+'' \<or> d = CHR ''-''
                    then Inr (scan_while isdigit (snd (lexer_advance s1)) (r1 @ [d]))
                    else Inr (scan_while isdigit s1 r1))
          else Inr (s, result))"

text \<open>
  \<^verbatim>\<open>float(result) if '.' in result or 'e' in result or 'E' in result else int(result)\<close>;
  \<open>None\<close> stands for the \<^verbatim>\<open>ValueError\<close> that the \<^verbatim>\<open>except\<close> clause catches.
\<close>

definition number_value :: "string \<Rightarrow> pyvalue option" where
  "number_value result =
     (if CHR ''.'' \<in> set result \<or> CHR ''e'' \<in> set result \<or> CHR ''E'' \<in> set result
      then map_option PFloat (py_float result)
      else map_option PInt (py_int result 10))"

definition tokenize_number :: "JSONLexer \<Rightarrow> pyerror + JSONLexer" where
  "tokenize_number s =
     (let start_line = lx_line s;
          start_col = lx_column s;
          (s1, r1) = optional_minus s [];
          (s2, r2) = integer_part s1 r1;
          (s3, r3) = decimal_part s2 r2
      in case exponent_part s3 r3 of
           Inl e \<Rightarrow> Inl e
         | Inr (s4, result) \<Rightarrow>
             (case number_value result of
                None \<Rightarrow> Inl (lexer_error s4 (''Invalid number: '' @ result))
              | Some v \<Rightarrow> Inr (append_token s4 (Token NUMBER v start_line start_col))))"

definition tokenize_keyword :: "JSONLexer \<Rightarrow> pyerror + JSONLexer" where
  "tokenize_keyword s =
     (let start_line = lx_line s;
          start_col = lx_column s;
          (s1, result) = scan_while isalpha s []
      in if result = ''true''
         then Inr (append_token s1 (Token TRUE (PBool True) start_line start_col))
         else if result = ''false''
         then Inr (append_token s1 (Token FALSE (PBool False) start_line start_col))
         else if result = ''null''
         then Inr (append_token s1 (Token NULL PNone start_line start_col))
         else Inl (lexer_error s1 (''Invalid keyword: '' @ result)))"

lemma scan_while_state:
  "scan_while p s result = (s', result') \<Longrightarrow>
   lx_text s' = lx_text s \<and> lx_pos s \<le> lx_pos s' \<and> lx_tokens s' = lx_tokens s"
proof (induction p s result arbitrary: s' result' rule: scan_while.induct)
  case (1 p s result)
  show ?case
  proof (cases "lexer_peek s")
    case None
    with "1.prems" show ?thesis by (simp add: scan_while.simps [of p s])
  next
    case (Some c)
    show ?thesis
    proof (cases "p c")
      case True
      with Some "1.prems"
      have rec: "scan_while p (snd (lexer_advance s)) (result @ [c]) = (s', result')"
        by (simp add: scan_while.simps [of p s])
      from "1.IH" [OF Some True rec] lexer_advance_pos_le [of s] show ?thesis by simp
    next
      case False
      with Some "1.prems" show ?thesis by (simp add: scan_while.simps [of p s])
    qed
  qed
qed

lemma scan_while_progress:
  assumes "scan_while p s result = (s', result')" and "lexer_peek s = Some c" and "p c"
  shows "lx_pos s < lx_pos s'"
proof -
  from assms have rec: "scan_while p (snd (lexer_advance s)) (result @ [c]) = (s', result')"
    by (simp add: scan_while.simps [of p s])
  from scan_while_state [OF rec] lexer_advance_pos_Some [OF assms(2)] show ?thesis by simp
qed

lemma optional_minus_state:
  "optional_minus s result = (s', result') \<Longrightarrow>
   lx_text s' = lx_text s \<and> lx_pos s \<le> lx_pos s' \<and> lx_tokens s' = lx_tokens s"
  using lexer_advance_pos_le [of s]
  by (auto simp: optional_minus_def split: if_splits)

lemma integer_part_state:
  "integer_part s result = (s', result') \<Longrightarrow>
   lx_text s' = lx_text s \<and> lx_pos s \<le> lx_pos s' \<and> lx_tokens s' = lx_tokens s"
  using lexer_advance_pos_le [of s]
  by (auto simp: integer_part_def split: if_splits dest: scan_while_state)

lemma decimal_part_state:
  "decimal_part s result = (s', result') \<Longrightarrow>
   lx_text s' = lx_text s \<and> lx_pos s \<le> lx_pos s' \<and> lx_tokens s' = lx_tokens s"
  using lexer_advance_pos_le [of s]
  by (auto simp: decimal_part_def split: if_splits dest!: scan_while_state)

lemma exponent_part_state:
  assumes "exponent_part s result = Inr (s', result')"
  shows "lx_text s' = lx_text s \<and> lx_pos s \<le> lx_pos s' \<and> lx_tokens s' = lx_tokens s"
proof -
  let ?s1 = "snd (lexer_advance s)"
  have s1: "lx_text ?s1 = lx_text s" "lx_pos s \<le> lx_pos ?s1" "lx_tokens ?s1 = lx_tokens s"
    using lexer_advance_pos_le [of s] by simp_all
  have s2: "lx_text (snd (lexer_advance ?s1)) = lx_text s"
    "lx_pos s \<le> lx_pos (snd (lexer_advance ?s1))"
    "lx_tokens (snd (lexer_advance ?s1)) = lx_tokens s"
    using lexer_advance_pos_le [of ?s1] s1 by simp_all
  from assms consider "s' = s"
    | r where "scan_while isdigit ?s1 r = (s', result')"
    | r where "scan_while isdigit (snd (lexer_advance ?s1)) r = (s', result')"
    by (auto simp: exponent_part_def Let_def split: option.splits if_splits)
  then show ?thesis
  proof cases
    case 1
    then show ?thesis by simp
  next
    case 2
    from scan_while_state [OF 2] s1 show ?thesis by simp
  next
    case 3
    from scan_while_state [OF 3] s2 show ?thesis by simp
  qed
qed

lemma tokenize_number_state:
  assumes "tokenize_number s = Inr s'" and "lexer_peek s = Some c"
    and "c = CHR ''-'' \<or> isdigit c"
  shows "lx_text s' = lx_text s \<and> lx_pos s < lx_pos s'"
proof -
  obtain s1 r1 where m: "optional_minus s [] = (s1, r1)" by (cases "optional_minus s []")
  obtain s2 r2 where i: "integer_part s1 r1 = (s2, r2)" by (cases "integer_part s1 r1")
  obtain s3 r3 where d: "decimal_part s2 r2 = (s3, r3)" by (cases "decimal_part s2 r2")
  from assms(1) m i d obtain s4 r4 where e: "exponent_part s3 r3 = Inr (s4, r4)"
    and s': "lx_text s' = lx_text s4" "lx_pos s' = lx_pos s4"
    by (auto simp: tokenize_number_def append_token_def split: sum.splits option.splits)
  note st = optional_minus_state [OF m] integer_part_state [OF i] decimal_part_state [OF d]
    exponent_part_state [OF e]
  have "lx_pos s < lx_pos s2"
  proof (cases "c = CHR ''-''")
    case True
    with m assms(2) have "lx_pos s1 = Suc (lx_pos s)"
      by (auto simp: optional_minus_def lexer_advance_pos_Some)
    with st show ?thesis by simp
  next
    case False
    with assms(3) have dg: "isdigit c" by simp
    from False m assms(2) have s1: "s1 = s" by (simp add: optional_minus_def)
    show ?thesis
    proof (cases "c = CHR ''0''")
      case True
      with i s1 assms(2) show ?thesis
        by (auto simp: integer_part_def lexer_advance_pos_Some)
    next
      case False
      with i s1 assms(2) have "scan_while isdigit s r1 = (s2, r2)"
        by (simp add: integer_part_def)
      from scan_while_progress [OF this assms(2) dg] show ?thesis .
    qed
  qed
  with st s' show ?thesis by simp
qed

lemma tokenize_keyword_state:
  assumes "tokenize_keyword s = Inr s'" and "lexer_peek s = Some c" and "isalpha c"
  shows "lx_text s' = lx_text s \<and> lx_pos s < lx_pos s'"
proof -
  obtain s1 r where w: "scan_while isalpha s [] = (s1, r)" by (cases "scan_while isalpha s []")
  with assms(1) have "lx_text s' = lx_text s1" "lx_pos s' = lx_pos s1"
    by (auto simp: tokenize_keyword_def Let_def append_token_def split: if_splits)
  with scan_while_state [OF w] scan_while_progress [OF w assms(2,3)] show ?thesis by simp
qed

lemma tokenize_string_state:
  assumes "tokenize_string s = Inr s'" and "lx_pos s < length (lx_text s)"
  shows "lx_text s' = lx_text s \<and> lx_pos s < lx_pos s'"
proof -
  let ?s1 = "snd (lexer_advance s)"
  from assms(1) obtain s2 r where l: "string_loop ?s1 [] = Inr (s2, r)"
    and s': "s' = append_token (snd (lexer_advance s2)) (Token STRING (PStr r) (lx_line s) (lx_column s))"
    by (auto simp: tokenize_string_def Let_def split: sum.splits)
  have "lx_pos ?s1 = Suc (lx_pos s)"
    using assms(2) by (simp add: lexer_advance_def Let_def)
  with string_loop_state [OF l] lexer_advance_pos_le [of s2] s'
  show ?thesis by (simp add: append_token_def)
qed

subsection \<open>The main loop\<close>

text \<open>
  The body of the \<^verbatim>\<open>while\<close> loop of \<^verbatim>\<open>tokenize\<close>, for the character \<^verbatim>\<open>char\<close> that
  \<^verbatim>\<open>peek\<close> returned: white space is skipped, a structural character gives its token,
  and a quote, a minus sign or digit, and one of the letters \<^verbatim>\<open>t\<close>, \<^verbatim>\<open>f\<close>, \<^verbatim>\<open>n\<close>
  start a string, a number and a keyword.
\<close>

definition tokenize_step :: "JSONLexer \<Rightarrow> char \<Rightarrow> pyerror + JSONLexer" where
  "tokenize_step s char =
     (if char \<in> set [CHR '' '', CHR 0x09, CHR 0x0A, CHR 0x0D]
      then Inr (snd (lexer_advance s))
      else if char = CHR ''{''
      then Inr (snd (lexer_advance (append_token s
             (Token LBRACE (PStr (ustr ''{'')) (lx_line s) (lx_column s)))))
      else if char = CHR ''}''
      then Inr (snd (lexer_advance (append_token s
             (Token RBRACE (PStr (ustr ''}'')) (lx_line s) (lx_column s)))))
      else if char = CHR ''[''
      then Inr (snd (lexer_advance (append_token s
             (Token LBRACKET (PStr (ustr ''['')) (lx_line s) (lx_column s)))))
      else if char = CHR '']''
      then Inr (snd (lexer_advance (append_token s
             (Token RBRACKET (PStr (ustr '']'')) (lx_line s) (lx_column s)))))
      else if char = CHR '':''
      then Inr (snd (lexer_advance (append_token s
             (Token COLON (PStr (ustr '':'')) (lx_line s) (lx_column s)))))
      else if char = CHR '',''
      then Inr (snd (lexer_advance (append_token s
             (Token COMMA (PStr (ustr '','')) (lx_line s) (lx_column s)))))
      else if char = DQUOTE then tokenize_string s
      else if char = CHR ''-'' \<or> isdigit char then tokenize_number s
      else if char = CHR ''t'' \<or> char = CHR ''f'' \<or> char = CHR ''n'' then tokenize_keyword s
      else Inl (lexer_error s (''Unexpected character: '' @ [char])))"

lemma append_token_fields [simp]:
  "lx_text (append_token s t) = lx_text s"
  "lx_pos (append_token s t) = lx_pos s"
  "lx_line (append_token s t) = lx_line s"
  "lx_column (append_token s t) = lx_column s"
  "lx_tokens (append_token s t) = lx_tokens s @ [t]"
  by (simp_all add: append_token_def)

lemma lexer_peek_append_token [simp]: "lexer_peek (append_token s t) = lexer_peek s"
  by (simp add: lexer_peek_def)

lemma isalpha_tfn: "c = CHR ''t'' \<or> c = CHR ''f'' \<or> c = CHR ''n'' \<Longrightarrow> isalpha c"
  by (auto simp: isalpha_def)

lemma tokenize_step_cases:
  assumes "tokenize_step s char = Inr s'"
  obtains (skip) "s' = snd (lexer_advance s)"
  | (structural) t where "s' = snd (lexer_advance (append_token s t))"
      and "ttype t \<in> {LBRACE, RBRACE, LBRACKET, RBRACKET, COLON, COMMA}"
  | (string) "char = DQUOTE" and "tokenize_string s = Inr s'"
  | (number) "char = CHR ''-'' \<or> isdigit char" and "tokenize_number s = Inr s'"
  | (keyword) "isalpha char" and "tokenize_keyword s = Inr s'"
proof -
  let ?ws = "set [CHR '' '', CHR 0x09, CHR 0x0A, CHR 0x0D]"
  let ?st = "set [CHR ''{'', CHR ''}'', CHR ''['', CHR '']'', CHR '':'', CHR '','']"
  consider "char \<in> ?ws" | "char \<notin> ?ws" "char \<in> ?st"
    | "char \<notin> ?ws" "char \<notin> ?st" "char = DQUOTE"
    | "char \<notin> ?ws" "char \<notin> ?st" "char \<noteq> DQUOTE" "char = CHR ''-'' \<or> isdigit char"
    | "char \<notin> ?ws" "char \<notin> ?st" "char \<noteq> DQUOTE" "\<not> (char = CHR ''-'' \<or> isdigit char)"
    by blast
  then show thesis
  proof cases
    case 1
    with assms have "s' = snd (lexer_advance s)" by (simp add: tokenize_step_def)
    then show thesis by (rule skip)
  next
    case 2
    from 2(2) have "char = CHR ''{'' \<or> char = CHR ''}'' \<or> char = CHR ''['' \<or> char = CHR '']''
        \<or> char = CHR '':'' \<or> char = CHR '',''"
      by (simp only: list.set insert_iff empty_iff simp_thms)
    then consider "char = CHR ''{''" | "char = CHR ''}''" | "char = CHR ''[''" | "char = CHR '']''"
      | "char = CHR '':''" | "char = CHR '',''"
      by blast
    then show thesis
    proof cases
      case 1
      with assms have "s' = snd (lexer_advance (append_token s
          (Token LBRACE (PStr (ustr ''{'')) (lx_line s) (lx_column s))))"
        by (simp add: tokenize_step_def)
      then show thesis by (rule structural) simp
    next
      case 2
      with assms have "s' = snd (lexer_advance (append_token s
          (Token RBRACE (PStr (ustr ''}'')) (lx_line s) (lx_column s))))"
        by (simp add: tokenize_step_def)
      then show thesis by (rule structural) simp
    next
      case 3
      with assms have "s' = snd (lexer_advance (append_token s
          (Token LBRACKET (PStr (ustr ''['')) (lx_line s) (lx_column s))))"
        by (simp add: tokenize_step_def)
      then show thesis by (rule structural) simp
    next
      case 4
      with assms have "s' = snd (lexer_advance (append_token s
          (Token RBRACKET (PStr (ustr '']'')) (lx_line s) (lx_column s))))"
        by (simp add: tokenize_step_def)
      then show thesis by (rule structural) simp
    next
      case 5
      with assms have "s' = snd (lexer_advance (append_token s
          (Token COLON (PStr (ustr '':'')) (lx_line s) (lx_column s))))"
        by (simp add: tokenize_step_def)
      then show thesis by (rule structural) simp
    next
      case 6
      with assms have "s' = snd (lexer_advance (append_token s
          (Token COMMA (PStr (ustr '','')) (lx_line s) (lx_column s))))"
        by (simp add: tokenize_step_def)
      then show thesis by (rule structural) simp
    qed
  next
    case 3
    with assms have "tokenize_string s = Inr s'" by (simp add: tokenize_step_def)
    with 3(3) show thesis by (rule string)
  next
    case 4
    from assms 4(1,2,3) have "(if char = CHR ''-'' \<or> isdigit char then tokenize_number s
        else if char = CHR ''t'' \<or> char = CHR ''f'' \<or> char = CHR ''n''
        then tokenize_keyword s
        else Inl (lexer_error s (''Unexpected character: '' @ [char]))) = Inr s'"
      by (simp add: tokenize_step_def)
    with 4(4) have "tokenize_number s = Inr s'" by (simp only: if_True)
    with 4(4) show thesis by (rule number)
  next
    case 5
    from assms 5(1,2,3) have "(if char = CHR ''-'' \<or> isdigit char then tokenize_number s
        else if char = CHR ''t'' \<or> char = CHR ''f'' \<or> char = CHR ''n''
        then tokenize_keyword s
        else Inl (lexer_error s (''Unexpected character: '' @ [char]))) = Inr s'"
      by (simp add: tokenize_step_def)
    with 5(4) have k: "char = CHR ''t'' \<or> char = CHR ''f'' \<or> char = CHR ''n''"
      and kw: "tokenize_keyword s = Inr s'"
      by (simp_all split: if_splits)
    from isalpha_tfn [OF k] kw show thesis by (rule keyword)
  qed
qed

lemma tokenize_step_state:
  assumes "tokenize_step s char = Inr s'" and "lexer_peek s = Some char"
  shows "lx_text s' = lx_text s \<and> lx_pos s < lx_pos s'"
proof -
  from assms(2) have lt: "lx_pos s < length (lx_text s)"
    by (simp add: lexer_peek_def split: if_splits)
  from assms(1) show ?thesis
  proof (cases rule: tokenize_step_cases)
    case skip
    with lexer_advance_pos_Some [OF assms(2)] show ?thesis by simp
  next
    case (structural t)
    have "lexer_peek (append_token s t) = Some char" using assms(2) by simp
    from lexer_advance_pos_Some [OF this] structural show ?thesis by simp
  next
    case string
    from tokenize_string_state [OF string(2) lt] show ?thesis .
  next
    case number
    from tokenize_number_state [OF number(2) assms(2) number(1)] show ?thesis .
  next
    case keyword
    from tokenize_keyword_state [OF keyword(2) assms(2) keyword(1)] show ?thesis .
  qed
qed

text \<open>
  \<^verbatim>\<open>tokenize\<close>: the loop runs while \<^verbatim>\<open>self.pos < len(self.text)\<close>, which is when
  \<^verbatim>\<open>peek\<close> returns a character. After the loop the \<^verbatim>\<open>EOF\<close> token is appended and the
  token list is returned.
\<close>

function tokenize_loop :: "JSONLexer \<Rightarrow> pyerror + JSONLexer" where
  "tokenize_loop s =
     (case lexer_peek s of
        None \<Rightarrow> Inr s
      | Some char \<Rightarrow>
          (case tokenize_step s char of
             Inl e \<Rightarrow> Inl e
           | Inr s' \<Rightarrow> tokenize_loop s'))"
  by pat_completeness auto
termination
proof (relation "measure (\<lambda>s. length (lx_text s) - lx_pos s)", goal_cases)
  case 1
  show ?case by simp
next
  case (2 s char s')
  then have "lx_pos s < length (lx_text s)"
    by (simp add: lexer_peek_def split: if_splits)
  moreover from 2 have "lx_text s' = lx_text s \<and> lx_pos s < lx_pos s'"
    by (intro tokenize_step_state) simp_all
  ultimately show ?case by (simp add: diff_less_mono2)
qed

declare tokenize_loop.simps [simp del]

definition tokenize :: "JSONLexer \<Rightarrow> pyerror + Token list" where
  "tokenize s =
     (case tokenize_loop s of
        Inl e \<Rightarrow> Inl e
      | Inr s' \<Rightarrow> Inr (lx_tokens s' @ [Token EOF PNone (lx_line s') (lx_column s')]))"

section \<open>The tokens the lexer appends\<close>

text \<open>No token that the loop of \<^verbatim>\<open>tokenize\<close> appends has the type \<^verbatim>\<open>EOF\<close>.\<close>

definition no_eof :: "JSONLexer \<Rightarrow> bool" where
  "no_eof s = (\<forall>t \<in> set (lx_tokens s). ttype t \<noteq> EOF)"

lemma no_eof_advance [simp]: "no_eof (snd (lexer_advance s)) = no_eof s"
  by (simp add: no_eof_def)

lemma no_eof_append_token [simp]: "no_eof (append_token s t) = (no_eof s \<and> ttype t \<noteq> EOF)"
  by (auto simp: no_eof_def)

lemma tokenize_string_no_eof:
  assumes "tokenize_string s = Inr s'" and "no_eof s"
  shows "no_eof s'"
proof -
  from assms(1) obtain s2 r where l: "string_loop (snd (lexer_advance s)) [] = Inr (s2, r)"
    and s': "s' = append_token (snd (lexer_advance s2)) (Token STRING (PStr r) (lx_line s) (lx_column s))"
    by (auto simp: tokenize_string_def Let_def split: sum.splits)
  from string_loop_state [OF l] assms(2) have "no_eof s2" by (simp add: no_eof_def)
  with s' show ?thesis by simp
qed

lemma tokenize_number_no_eof:
  assumes "tokenize_number s = Inr s'" and "no_eof s"
  shows "no_eof s'"
proof -
  obtain s1 r1 where m: "optional_minus s [] = (s1, r1)" by (cases "optional_minus s []")
  obtain s2 r2 where i: "integer_part s1 r1 = (s2, r2)" by (cases "integer_part s1 r1")
  obtain s3 r3 where d: "decimal_part s2 r2 = (s3, r3)" by (cases "decimal_part s2 r2")
  from assms(1) m i d obtain s4 r4 v where e: "exponent_part s3 r3 = Inr (s4, r4)"
    and s': "s' = append_token s4 (Token NUMBER v (lx_line s) (lx_column s))"
    by (auto simp: tokenize_number_def split: sum.splits option.splits)
  from optional_minus_state [OF m] integer_part_state [OF i] decimal_part_state [OF d]
    exponent_part_state [OF e] assms(2)
  have "no_eof s4" by (simp add: no_eof_def)
  with s' show ?thesis by simp
qed

lemma tokenize_keyword_no_eof:
  assumes "tokenize_keyword s = Inr s'" and "no_eof s"
  shows "no_eof s'"
proof -
  obtain s1 r where w: "scan_while isalpha s [] = (s1, r)" by (cases "scan_while isalpha s []")
  from scan_while_state [OF w] assms(2) have "no_eof s1" by (simp add: no_eof_def)
  with assms(1) w show ?thesis
    by (auto simp: tokenize_keyword_def Let_def split: if_splits)
qed

lemma tokenize_step_no_eof:
  assumes "tokenize_step s char = Inr s'" and "no_eof s"
  shows "no_eof s'"
  using assms(1)
proof (cases rule: tokenize_step_cases)
  case skip
  with assms(2) show ?thesis by simp
next
  case (structural t)
  with assms(2) show ?thesis by auto
next
  case string
  with assms(2) show ?thesis by (auto intro: tokenize_string_no_eof)
next
  case number
  with assms(2) show ?thesis by (auto intro: tokenize_number_no_eof)
next
  case keyword
  with assms(2) show ?thesis by (auto intro: tokenize_keyword_no_eof)
qed

lemma tokenize_loop_no_eof:
  "tokenize_loop s = Inr s' \<Longrightarrow> no_eof s \<Longrightarrow> no_eof s'"
proof (induction s arbitrary: s' rule: tokenize_loop.induct)
  case (1 s)
  show ?case
  proof (cases "lexer_peek s")
    case None
    with "1.prems" show ?thesis by (simp add: tokenize_loop.simps [of s])
  next
    case (Some char)
    with "1.prems"(1) obtain s1 where step: "tokenize_step s char = Inr s1"
      and rec: "tokenize_loop s1 = Inr s'"
      by (simp add: tokenize_loop.simps [of s] split: sum.splits)
    from "1.IH" [OF Some step rec] tokenize_step_no_eof [OF step "1.prems"(2)]
    show ?thesis by simp
  qed
qed

lemma tokenize_ends_with_one_EOF:
  assumes "tokenize (JSONLexer_init text) = Inr toks"
  shows "\<exists>ts l c. toks = ts @ [Token EOF PNone l c] \<and> (\<forall>t \<in> set ts. ttype t \<noteq> EOF)"
proof -
  from assms obtain s' where l: "tokenize_loop (JSONLexer_init text) = Inr s'"
    and toks: "toks = lx_tokens s' @ [Token EOF PNone (lx_line s') (lx_column s')]"
    by (auto simp: tokenize_def split: sum.splits)
  have "no_eof (JSONLexer_init text)" by (simp add: no_eof_def JSONLexer_init_def)
  from tokenize_loop_no_eof [OF l this] toks show ?thesis
    by (auto simp: no_eof_def)
qed

section \<open>The parser\<close>

text \<open>
  \<^verbatim>\<open>xs[i]\<close> on a Python list: an index from \<open>- len\<close> up to \<open>len - 1\<close> is accepted,
  a negative one counting from the end; any other raises \<^verbatim>\<open>IndexError\<close>.
\<close>

definition py_getitem :: "'a list \<Rightarrow> int \<Rightarrow> pyerror + 'a" where
  "py_getitem xs i =
     (if 0 \<le> i \<and> i < int (length xs) then Inr (xs ! nat i)
      else if - int (length xs) \<le> i \<and> i < 0 then Inr (xs ! nat (int (length xs) + i))
      else Inl IndexError)"

text \<open>
  \<^verbatim>\<open>obj[key] = value\<close> on a \<^verbatim>\<open>dict\<close>: a key that is present keeps its place and gets the
  new value, a new key goes to the end; a list or a dict as key is unhashable
  (\<^verbatim>\<open>TypeError\<close>). Keys are compared as values of \<^typ>\<open>pyvalue\<close>, which for the string
  keys the lexer produces is Python's \<^verbatim>\<open>==\<close>.
\<close>

fun dict_update :: "(pyvalue \<times> pyvalue) list \<Rightarrow> pyvalue \<Rightarrow> pyvalue \<Rightarrow> (pyvalue \<times> pyvalue) list" where
  "dict_update [] key v = [(key, v)]"
| "dict_update ((k, w) # d) key v =
     (if k = key then (k, v) # d else (k, w) # dict_update d key v)"

fun hashable :: "pyvalue \<Rightarrow> bool" where
  "hashable (PList xs) = False"
| "hashable (PDict d) = False"
| "hashable v = True"

definition dict_setitem ::
  "(pyvalue \<times> pyvalue) list \<Rightarrow> pyvalue \<Rightarrow> pyvalue \<Rightarrow> pyerror + (pyvalue \<times> pyvalue) list" where
  "dict_setitem d key v = (if hashable key then Inr (dict_update d key v) else Inl TypeError)"

text \<open>
  The parser never assigns \<^verbatim>\<open>self.tokens\<close>; its state is the cursor \<^verbatim>\<open>self.pos\<close>, which
  starts at 0 and is only ever incremented. Every operation takes the token list and the
  cursor, and returns the new cursor where it can change it.
\<close>

definition current_token :: "Token list \<Rightarrow> nat \<Rightarrow> pyerror + Token" where
  "current_token toks pos = py_getitem toks (min (int pos) (int (length toks) - 1))"

definition parser_peek :: "Token list \<Rightarrow> nat \<Rightarrow> int \<Rightarrow> pyerror + Token" where
  "parser_peek toks pos offset =
     py_getitem toks (min (int pos + offset) (int (length toks) - 1))"

definition parser_advance :: "Token list \<Rightarrow> nat \<Rightarrow> pyerror + (Token \<times> nat)" where
  "parser_advance toks pos =
     (case current_token toks pos of
        Inl e \<Rightarrow> Inl e
      | Inr token \<Rightarrow>
          Inr (token, if int pos < int (length toks) - 1 then pos + 1 else pos))"

definition parser_error :: "Token list \<Rightarrow> nat \<Rightarrow> string \<Rightarrow> pyerror" where
  "parser_error toks pos msg =
     (case current_token toks pos of
        Inl e \<Rightarrow> e
      | Inr token \<Rightarrow> ParseError (tline token) (tcolumn token) msg)"

definition expect :: "Token list \<Rightarrow> nat \<Rightarrow> TokenType \<Rightarrow> pyerror + (Token \<times> nat)" where
  "expect toks pos token_type =
     (case current_token toks pos of
        Inl e \<Rightarrow> Inl e
      | Inr token \<Rightarrow>
          if ttype token \<noteq> token_type
          then Inl (parser_error toks pos
                 (''Expected '' @ TokenType_value token_type @ '', got ''
                    @ TokenType_value (ttype token)))
          else parser_advance toks pos)"

text \<open>
  The recursive descent. \<^verbatim>\<open>parse_value\<close> calls \<^verbatim>\<open>parse_object\<close> and \<^verbatim>\<open>parse_array\<close>, which
  call \<^verbatim>\<open>parse_value\<close> again for every member and element, and nothing in the source bounds
  the depth of these calls: the interpreter does, and raises \<^verbatim>\<open>RecursionError\<close> in the call
  that would pass its recursion limit. The argument \<open>depth\<close> is the number of containers,
  one inside the other, for which the call stack still has room when the function is
  called: each container takes the frames of \<^verbatim>\<open>parse_value\<close> and of \<^verbatim>\<open>parse_object\<close> or
  \<^verbatim>\<open>parse_array\<close>, and \<^verbatim>\<open>parse_object\<close> and \<^verbatim>\<open>parse_array\<close> with no room left end in
  \<^verbatim>\<open>RecursionError\<close> before they have moved the cursor. (The calls that do not nest, those
  of the lexer and of the cursor methods, are taken to fit.) \<open>depth\<close> is an argument and
  not a constant because it depends on \<^verbatim>\<open>sys.getrecursionlimit()\<close>, 1000 unless changed,
  and on the number of frames in use when \<^verbatim>\<open>parse_json\<close> is called.

  The functions also take fuel, one unit for each call and each turn of a loop, which makes
  them total. \<open>None\<close> means that the fuel ran out; \<open>Some (Inl e)\<close> is the exception \<open>e\<close>;
  \<open>Some (Inr x)\<close> is the result \<open>x\<close>. The two \<^verbatim>\<open>while True\<close> loops are \<open>object_loop\<close> and \<open>array_loop\<close>, with the
  locals \<^verbatim>\<open>obj\<close> and \<^verbatim>\<open>arr\<close> as accumulators.

  Each method body is a definition of its own, which takes the methods it calls as
  arguments (named as in the source); the recursive functions below tie them together.
\<close>

type_synonym 'a result = "(pyerror + 'a) option"

definition and_then :: "'a result \<Rightarrow> ('a \<Rightarrow> 'b result) \<Rightarrow> 'b result" where
  "and_then m f = (case m of None \<Rightarrow> None | Some (Inl e) \<Rightarrow> Some (Inl e) | Some (Inr x) \<Rightarrow> f x)"

definition parse_value_body ::
  "(nat \<Rightarrow> (pyvalue \<times> nat) result) \<Rightarrow> (nat \<Rightarrow> (pyvalue \<times> nat) result) \<Rightarrow>
   Token list \<Rightarrow> nat \<Rightarrow> (pyvalue \<times> nat) result" where
  "parse_value_body parse_object parse_array toks pos =
     and_then (Some (current_token toks pos)) (\<lambda>token.
       if ttype token = STRING then
         and_then (Some (parser_advance toks pos)) (\<lambda>(_, pos1). Some (Inr (tvalue token, pos1)))
       else if ttype token = NUMBER then
         and_then (Some (parser_advance toks pos)) (\<lambda>(_, pos1). Some (Inr (tvalue token, pos1)))
       else if ttype token = TRUE then
         and_then (Some (parser_advance toks pos)) (\<lambda>(_, pos1). Some (Inr (PBool True, pos1)))
       else if ttype token = FALSE then
         and_then (Some (parser_advance toks pos)) (\<lambda>(_, pos1). Some (Inr (PBool False, pos1)))
       else if ttype token = NULL then
         and_then (Some (parser_advance toks pos)) (\<lambda>(_, pos1). Some (Inr (PNone, pos1)))
       else if ttype token = LBRACE then parse_object pos
       else if ttype token = LBRACKET then parse_array pos
       else Some (Inl (parser_error toks pos
              (''Unexpected token: '' @ TokenType_value (ttype token)))))"

definition parse_object_body ::
  "(nat \<Rightarrow> (pyvalue \<times> pyvalue) list \<Rightarrow> (pyvalue \<times> nat) result) \<Rightarrow>
   Token list \<Rightarrow> nat \<Rightarrow> (pyvalue \<times> nat) result" where
  "parse_object_body object_loop toks pos =
     and_then (Some (expect toks pos LBRACE)) (\<lambda>(_, pos1).
     and_then (Some (current_token toks pos1)) (\<lambda>token.
       if ttype token = RBRACE then
         and_then (Some (parser_advance toks pos1)) (\<lambda>(_, pos2). Some (Inr (PDict [], pos2)))
       else object_loop pos1 []))"

definition object_loop_body ::
  "(nat \<Rightarrow> (pyvalue \<times> nat) result) \<Rightarrow>
   (nat \<Rightarrow> (pyvalue \<times> pyvalue) list \<Rightarrow> (pyvalue \<times> nat) result) \<Rightarrow>
   Token list \<Rightarrow> nat \<Rightarrow> (pyvalue \<times> pyvalue) list \<Rightarrow> (pyvalue \<times> nat) result" where
  "object_loop_body parse_value object_loop toks pos obj =
     and_then (Some (expect toks pos STRING)) (\<lambda>(key_token, pos1).
     and_then (Some (expect toks pos1 COLON)) (\<lambda>(_, pos2).
     and_then (parse_value pos2) (\<lambda>(v, pos3).
     and_then (Some (dict_setitem obj (tvalue key_token) v)) (\<lambda>obj1.
     and_then (Some (current_token toks pos3)) (\<lambda>token.
       if ttype token = COMMA then
         and_then (Some (parser_advance toks pos3)) (\<lambda>(_, pos4).
         and_then (Some (current_token toks pos4)) (\<lambda>token1.
           if ttype token1 = RBRACE
           then Some (Inl (parser_error toks pos4 ''Trailing comma in object''))
           else object_loop pos4 obj1))
       else
         and_then (Some (expect toks pos3 RBRACE)) (\<lambda>(_, pos4).
           Some (Inr (PDict obj1, pos4))))))))"

definition parse_array_body ::
  "(nat \<Rightarrow> pyvalue list \<Rightarrow> (pyvalue \<times> nat) result) \<Rightarrow>
   Token list \<Rightarrow> nat \<Rightarrow> (pyvalue \<times> nat) result" where
  "parse_array_body array_loop toks pos =
     and_then (Some (expect toks pos LBRACKET)) (\<lambda>(_, pos1).
     and_then (Some (current_token toks pos1)) (\<lambda>token.
       if ttype token = RBRACKET then
         and_then (Some (parser_advance toks pos1)) (\<lambda>(_, pos2). Some (Inr (PList [], pos2)))
       else array_loop pos1 []))"

definition array_loop_body ::
  "(nat \<Rightarrow> (pyvalue \<times> nat) result) \<Rightarrow>
   (nat \<Rightarrow> pyvalue list \<Rightarrow> (pyvalue \<times> nat) result) \<Rightarrow>
   Token list \<Rightarrow> nat \<Rightarrow> pyvalue list \<Rightarrow> (pyvalue \<times> nat) result" where
  "array_loop_body parse_value array_loop toks pos arr =
     and_then (parse_value pos) (\<lambda>(v, pos1).
     and_then (Some (current_token toks pos1)) (\<lambda>token.
       if ttype token = COMMA then
         and_then (Some (parser_advance toks pos1)) (\<lambda>(_, pos2).
         and_then (Some (current_token toks pos2)) (\<lambda>token1.
           if ttype token1 = RBRACKET
           then Some (Inl (parser_error toks pos2 ''Trailing comma in array''))
           else array_loop pos2 (arr @ [v])))
       else
         and_then (Some (expect toks pos1 RBRACKET)) (\<lambda>(_, pos2).
           Some (Inr (PList (arr @ [v]), pos2)))))"

function parse_value :: "nat \<Rightarrow> nat \<Rightarrow> Token list \<Rightarrow> nat \<Rightarrow> (pyvalue \<times> nat) result"
  and parse_object :: "nat \<Rightarrow> nat \<Rightarrow> Token list \<Rightarrow> nat \<Rightarrow> (pyvalue \<times> nat) result"
  and object_loop ::
    "nat \<Rightarrow> nat \<Rightarrow> Token list \<Rightarrow> nat \<Rightarrow> (pyvalue \<times> pyvalue) list \<Rightarrow> (pyvalue \<times> nat) result"
  and parse_array :: "nat \<Rightarrow> nat \<Rightarrow> Token list \<Rightarrow> nat \<Rightarrow> (pyvalue \<times> nat) result"
  and array_loop ::
    "nat \<Rightarrow> nat \<Rightarrow> Token list \<Rightarrow> nat \<Rightarrow> pyvalue list \<Rightarrow> (pyvalue \<times> nat) result"
where
  "parse_value 0 depth toks pos = None"
| "parse_value (Suc n) depth toks pos =
     parse_value_body (parse_object n depth toks) (parse_array n depth toks) toks pos"
| "parse_object 0 depth toks pos = None"
| "parse_object (Suc n) 0 toks pos = Some (Inl RecursionError)"
| "parse_object (Suc n) (Suc depth) toks pos =
     parse_object_body (object_loop n depth toks) toks pos"
| "object_loop 0 depth toks pos obj = None"
| "object_loop (Suc n) depth toks pos obj =
     object_loop_body (parse_value n depth toks) (object_loop n depth toks) toks pos obj"
| "parse_array 0 depth toks pos = None"
| "parse_array (Suc n) 0 toks pos = Some (Inl RecursionError)"
| "parse_array (Suc n) (Suc depth) toks pos =
     parse_array_body (array_loop n depth toks) toks pos"
| "array_loop 0 depth toks pos arr = None"
| "array_loop (Suc n) depth toks pos arr =
     array_loop_body (parse_value n depth toks) (array_loop n depth toks) toks pos arr"
  by pat_completeness auto
termination
  by (relation "measure (\<lambda>x. case x of
          Inl (Inl (n, _)) \<Rightarrow> n
        | Inl (Inr (n, _)) \<Rightarrow> n
        | Inr (Inl (n, _)) \<Rightarrow> n
        | Inr (Inr (Inl (n, _))) \<Rightarrow> n
        | Inr (Inr (Inr (n, _))) \<Rightarrow> n)") simp_all

text \<open>\<^verbatim>\<open>JSONParser(tokens).parse()\<close>: the cursor starts at 0.\<close>

definition parse :: "nat \<Rightarrow> nat \<Rightarrow> Token list \<Rightarrow> pyvalue result" where
  "parse fuel depth toks =
     and_then (parse_value fuel depth toks 0) (\<lambda>(result, pos).
     and_then (Some (current_token toks pos)) (\<lambda>token.
       if ttype token \<noteq> EOF
       then Some (Inl (parser_error toks pos ''Expected end of input''))
       else Some (Inr result)))"

text \<open>The entry point \<^verbatim>\<open>parse_json\<close>.\<close>

definition parse_json :: "nat \<Rightarrow> nat \<Rightarrow> string \<Rightarrow> pyvalue result" where
  "parse_json fuel depth json_string =
     and_then (Some (tokenize (JSONLexer_init json_string))) (\<lambda>tokens. parse fuel depth tokens)"

section \<open>More fuel never changes a result\<close>

text \<open>
  Once a run of the parser has ended, with a value or with an exception, every run with
  more fuel and the same room on the call stack ends in the same way. So a result computed
  with some fuel is the result of the Python program, whose loops are not bounded and whose
  calls are bounded by the call stack alone.
\<close>

lemma and_then_mono:
  assumes "and_then m f = Some r"
    and "\<And>x. m = Some x \<Longrightarrow> m' = Some x"
    and "\<And>x. m = Some (Inr x) \<Longrightarrow> f x = Some r \<Longrightarrow> f' x = Some r"
  shows "and_then m' f' = Some r"
  using assms by (auto simp: and_then_def split: option.splits sum.splits)

lemma and_then_Some_mono:
  assumes "and_then (Some a) f = Some r"
    and "\<And>x. a = Inr x \<Longrightarrow> f x = Some r \<Longrightarrow> f' x = Some r"
  shows "and_then (Some a) f' = Some r"
  using assms by (auto simp: and_then_def split: sum.splits)

lemma parse_value_body_mono:
  assumes "parse_value_body po pa toks pos = Some r"
    and "\<And>p x. po p = Some x \<Longrightarrow> po' p = Some x"
    and "\<And>p x. pa p = Some x \<Longrightarrow> pa' p = Some x"
  shows "parse_value_body po' pa' toks pos = Some r"
  using assms(1) unfolding parse_value_body_def
  by (rule and_then_Some_mono) (auto split: if_splits intro: assms(2,3))

lemma parse_object_body_mono:
  assumes "parse_object_body ol toks pos = Some r"
    and "\<And>p d x. ol p d = Some x \<Longrightarrow> ol' p d = Some x"
  shows "parse_object_body ol' toks pos = Some r"
  using assms(1) unfolding parse_object_body_def
  apply (rule and_then_Some_mono)
  apply (clarsimp)
  apply (erule and_then_Some_mono)
  apply (auto split: if_splits intro: assms(2))
  done

lemma parse_array_body_mono:
  assumes "parse_array_body al toks pos = Some r"
    and "\<And>p d x. al p d = Some x \<Longrightarrow> al' p d = Some x"
  shows "parse_array_body al' toks pos = Some r"
  using assms(1) unfolding parse_array_body_def
  apply (rule and_then_Some_mono)
  apply (clarsimp)
  apply (erule and_then_Some_mono)
  apply (auto split: if_splits intro: assms(2))
  done

lemma object_loop_body_mono:
  assumes "object_loop_body pv ol toks pos obj = Some r"
    and "\<And>p x. pv p = Some x \<Longrightarrow> pv' p = Some x"
    and "\<And>p d x. ol p d = Some x \<Longrightarrow> ol' p d = Some x"
  shows "object_loop_body pv' ol' toks pos obj = Some r"
  using assms(1) unfolding object_loop_body_def
  apply (rule and_then_Some_mono)
  apply (clarsimp)
  apply (erule and_then_Some_mono)
  apply (clarsimp)
  apply (erule and_then_mono)
   apply (erule assms(2))
  apply (clarsimp)
  apply (erule and_then_Some_mono)
  apply (erule and_then_Some_mono)
  apply (simp split: if_splits)
  apply (erule and_then_Some_mono)
  apply (clarsimp)
  apply (erule and_then_Some_mono)
  apply (auto split: if_splits intro: assms(3))
  done

lemma array_loop_body_mono:
  assumes "array_loop_body pv al toks pos arr = Some r"
    and "\<And>p x. pv p = Some x \<Longrightarrow> pv' p = Some x"
    and "\<And>p d x. al p d = Some x \<Longrightarrow> al' p d = Some x"
  shows "array_loop_body pv' al' toks pos arr = Some r"
  using assms(1) unfolding array_loop_body_def
  apply (rule and_then_mono)
   apply (erule assms(2))
  apply (clarsimp)
  apply (erule and_then_Some_mono)
  apply (simp split: if_splits)
  apply (erule and_then_Some_mono)
  apply (clarsimp)
  apply (erule and_then_Some_mono)
  apply (auto split: if_splits intro: assms(3))
  done

lemma fuel_Suc:
  "(\<forall>d toks pos r. parse_value n d toks pos = Some r \<longrightarrow>
       parse_value (Suc n) d toks pos = Some r) \<and>
   (\<forall>d toks pos r. parse_object n d toks pos = Some r \<longrightarrow>
       parse_object (Suc n) d toks pos = Some r) \<and>
   (\<forall>d toks pos obj r. object_loop n d toks pos obj = Some r \<longrightarrow>
       object_loop (Suc n) d toks pos obj = Some r) \<and>
   (\<forall>d toks pos r. parse_array n d toks pos = Some r \<longrightarrow>
       parse_array (Suc n) d toks pos = Some r) \<and>
   (\<forall>d toks pos arr r. array_loop n d toks pos arr = Some r \<longrightarrow>
       array_loop (Suc n) d toks pos arr = Some r)"
proof (induction n)
  case 0
  show ?case by simp
next
  case (Suc n)
  then have pv: "\<And>d toks pos r. parse_value n d toks pos = Some r \<Longrightarrow>
       parse_value (Suc n) d toks pos = Some r"
    and po: "\<And>d toks pos r. parse_object n d toks pos = Some r \<Longrightarrow>
       parse_object (Suc n) d toks pos = Some r"
    and ol: "\<And>d toks pos obj r. object_loop n d toks pos obj = Some r \<Longrightarrow>
       object_loop (Suc n) d toks pos obj = Some r"
    and pa: "\<And>d toks pos r. parse_array n d toks pos = Some r \<Longrightarrow>
       parse_array (Suc n) d toks pos = Some r"
    and al: "\<And>d toks pos arr r. array_loop n d toks pos arr = Some r \<Longrightarrow>
       array_loop (Suc n) d toks pos arr = Some r"
    by simp_all
  have 1: "parse_value (Suc (Suc n)) d toks pos = Some r"
    if "parse_value (Suc n) d toks pos = Some r" for d toks pos r
    using that by (simp only: parse_value.simps) (erule parse_value_body_mono; erule po pa)
  have 2: "parse_object (Suc (Suc n)) d toks pos = Some r"
    if "parse_object (Suc n) d toks pos = Some r" for d toks pos r
  proof (cases d)
    case 0
    with that show ?thesis by simp
  next
    case (Suc d')
    with that show ?thesis
      by (simp only: parse_object.simps) (erule parse_object_body_mono; erule ol)
  qed
  have 3: "object_loop (Suc (Suc n)) d toks pos obj = Some r"
    if "object_loop (Suc n) d toks pos obj = Some r" for d toks pos obj r
    using that by (simp only: object_loop.simps) (erule object_loop_body_mono; erule pv ol)
  have 4: "parse_array (Suc (Suc n)) d toks pos = Some r"
    if "parse_array (Suc n) d toks pos = Some r" for d toks pos r
  proof (cases d)
    case 0
    with that show ?thesis by simp
  next
    case (Suc d')
    with that show ?thesis
      by (simp only: parse_array.simps) (erule parse_array_body_mono; erule al)
  qed
  have 5: "array_loop (Suc (Suc n)) d toks pos arr = Some r"
    if "array_loop (Suc n) d toks pos arr = Some r" for d toks pos arr r
    using that by (simp only: array_loop.simps) (erule array_loop_body_mono; erule pv al)
  from 1 2 3 4 5 show ?case by blast
qed

lemma parse_value_mono:
  assumes "n \<le> m" and "parse_value n d toks pos = Some r"
  shows "parse_value m d toks pos = Some r"
  using assms
proof (induction m rule: dec_induct)
  case base
  then show ?case .
next
  case (step k)
  then show ?case using fuel_Suc [of k] by simp
qed

lemma parse_mono: "parse n d toks = Some r \<Longrightarrow> n \<le> m \<Longrightarrow> parse m d toks = Some r"
  unfolding parse_def
  by (erule and_then_mono) (auto intro: parse_value_mono)

lemma parse_json_mono:
  "parse_json n d text = Some r \<Longrightarrow> n \<le> m \<Longrightarrow> parse_json m d text = Some r"
  unfolding parse_json_def
  by (erule and_then_Some_mono) (auto intro: parse_mono)

section \<open>Reads of the token list\<close>

text \<open>
  On a token list that is not empty the index \<^verbatim>\<open>min(self.pos, len(self.tokens) - 1)\<close> is in
  range, so \<^verbatim>\<open>current_token\<close> returns a token of the list, and so do \<^verbatim>\<open>advance\<close>,
  \<^verbatim>\<open>expect\<close> and \<^verbatim>\<open>error\<close>, which read through it. \<^verbatim>\<open>peek\<close> adds an offset first:
  with an offset that is not negative the index is in range as well. (A negative index
  makes Python count from the end of the list, and raises \<^verbatim>\<open>IndexError\<close> below
  \<^verbatim>\<open>-len(self.tokens)\<close>; no method of the parser calls \<^verbatim>\<open>peek\<close>.)
\<close>

lemma clamped_getitem:
  assumes "xs \<noteq> []"
  shows "py_getitem xs (min (int k) (int (length xs) - 1)) = Inr (xs ! min k (length xs - 1))"
proof -
  from assms obtain m where m: "length xs = Suc m" by (cases xs) auto
  have "min (int k) (int (length xs) - 1) = int (min k m)"
    by (simp add: m min_def)
  moreover have "min k m < length xs" by (simp add: m)
  ultimately show ?thesis by (simp add: py_getitem_def m)
qed

lemma current_token_nonempty:
  assumes "toks \<noteq> []"
  shows "current_token toks pos = Inr (toks ! min pos (length toks - 1))"
  unfolding current_token_def by (rule clamped_getitem [OF assms])

lemma parser_peek_nonneg:
  assumes "toks \<noteq> []" and "0 \<le> offset"
  shows "parser_peek toks pos offset = Inr (toks ! min (pos + nat offset) (length toks - 1))"
proof -
  from assms(2) have "int pos + offset = int (pos + nat offset)" by simp
  then show ?thesis
    unfolding parser_peek_def by (simp only: clamped_getitem [OF assms(1)])
qed

lemma parser_advance_nonempty:
  assumes "toks \<noteq> []"
  shows "parser_advance toks pos
    = Inr (toks ! min pos (length toks - 1), if Suc pos < length toks then Suc pos else pos)"
  using assms by (auto simp: parser_advance_def current_token_nonempty)

lemma parser_error_nonempty:
  assumes "toks \<noteq> []"
  shows "parser_error toks pos msg
    = ParseError (tline (toks ! min pos (length toks - 1)))
        (tcolumn (toks ! min pos (length toks - 1))) msg"
  using assms by (simp add: parser_error_def current_token_nonempty)

lemma expect_nonempty:
  assumes "toks \<noteq> []"
  shows "expect toks pos tt =
    (let token = toks ! min pos (length toks - 1) in
     if ttype token \<noteq> tt
     then Inl (ParseError (tline token) (tcolumn token)
             (''Expected '' @ TokenType_value tt @ '', got '' @ TokenType_value (ttype token)))
     else Inr (token, if Suc pos < length toks then Suc pos else pos))"
  using assms
  by (simp add: expect_def current_token_nonempty parser_error_nonempty parser_advance_nonempty Let_def)

text \<open>A run that does not end with the exception \<^verbatim>\<open>IndexError\<close>.\<close>

definition no_index_error :: "'a result \<Rightarrow> bool" where
  "no_index_error r = (r \<noteq> Some (Inl IndexError))"

lemma no_index_error_and_then:
  assumes "no_index_error m" and "\<And>x. m = Some (Inr x) \<Longrightarrow> no_index_error (f x)"
  shows "no_index_error (and_then m f)"
  using assms by (auto simp: no_index_error_def and_then_def split: option.splits sum.splits)

lemma no_index_error_simps [simp]:
  "no_index_error None" "no_index_error (Some (Inr x))"
  "no_index_error (Some (Inl e)) = (e \<noteq> IndexError)"
  by (auto simp: no_index_error_def)

lemma parse_value_body_safe:
  assumes "toks \<noteq> []" and "\<And>p. no_index_error (po p)" and "\<And>p. no_index_error (pa p)"
  shows "no_index_error (parse_value_body po pa toks pos)"
  unfolding parse_value_body_def using assms
  by (auto intro!: no_index_error_and_then
      simp: current_token_nonempty parser_advance_nonempty parser_error_nonempty)

lemma parse_object_body_safe:
  assumes "toks \<noteq> []" and "\<And>p d. no_index_error (ol p d)"
  shows "no_index_error (parse_object_body ol toks pos)"
  unfolding parse_object_body_def using assms
  by (auto intro!: no_index_error_and_then
      simp: current_token_nonempty parser_advance_nonempty expect_nonempty Let_def)

lemma parse_array_body_safe:
  assumes "toks \<noteq> []" and "\<And>p d. no_index_error (al p d)"
  shows "no_index_error (parse_array_body al toks pos)"
  unfolding parse_array_body_def using assms
  by (auto intro!: no_index_error_and_then
      simp: current_token_nonempty parser_advance_nonempty expect_nonempty Let_def)

lemma object_loop_body_safe:
  assumes "toks \<noteq> []" and "\<And>p. no_index_error (pv p)" and "\<And>p d. no_index_error (ol p d)"
  shows "no_index_error (object_loop_body pv ol toks pos obj)"
  unfolding object_loop_body_def using assms
  by (auto intro!: no_index_error_and_then
      simp: current_token_nonempty parser_advance_nonempty expect_nonempty parser_error_nonempty
        dict_setitem_def Let_def)

lemma array_loop_body_safe:
  assumes "toks \<noteq> []" and "\<And>p. no_index_error (pv p)" and "\<And>p d. no_index_error (al p d)"
  shows "no_index_error (array_loop_body pv al toks pos arr)"
  unfolding array_loop_body_def using assms
  by (auto intro!: no_index_error_and_then
      simp: current_token_nonempty parser_advance_nonempty expect_nonempty parser_error_nonempty
        Let_def)

lemma parser_safe:
  assumes "toks \<noteq> []"
  shows "(\<forall>d pos. no_index_error (parse_value n d toks pos)) \<and>
   (\<forall>d pos. no_index_error (parse_object n d toks pos)) \<and>
   (\<forall>d pos obj. no_index_error (object_loop n d toks pos obj)) \<and>
   (\<forall>d pos. no_index_error (parse_array n d toks pos)) \<and>
   (\<forall>d pos arr. no_index_error (array_loop n d toks pos arr))"
proof (induction n)
  case 0
  show ?case by simp
next
  case (Suc n)
  have po: "no_index_error (parse_object (Suc n) d toks pos)" for d pos
    using Suc by (cases d) (simp_all add: assms parse_object_body_safe)
  have pa: "no_index_error (parse_array (Suc n) d toks pos)" for d pos
    using Suc by (cases d) (simp_all add: assms parse_array_body_safe)
  from Suc po pa show ?case
    by (simp add: assms parse_value_body_safe object_loop_body_safe array_loop_body_safe)
qed

lemma parse_safe:
  assumes "toks \<noteq> []"
  shows "no_index_error (parse n d toks)"
  unfolding parse_def using assms parser_safe [OF assms, of n]
  by (auto intro!: no_index_error_and_then simp: current_token_nonempty parser_error_nonempty)

section \<open>No run ends with \<^verbatim>\<open>IndexError\<close>\<close>

text \<open>
  The lexer reads \<^verbatim>\<open>self.text\<close> only below its length, so none of its exceptions is
  \<^verbatim>\<open>IndexError\<close>; the list it returns holds at least the \<^verbatim>\<open>EOF\<close> token, so the parser
  reads within the list.
\<close>

lemma read_hex_digits_error: "read_hex_digits n s h = Inl e \<Longrightarrow> e = TypeError"
proof (induction n arbitrary: s h)
  case 0
  then show ?case by simp
next
  case (Suc n)
  obtain r s1 where adv: "lexer_advance s = (r, s1)" by (cases "lexer_advance s")
  show ?case
  proof (cases r)
    case None
    with Suc.prems adv show ?thesis by simp
  next
    case (Some c)
    with Suc.prems adv have "read_hex_digits n s1 (h @ [c]) = Inl e" by simp
    then show ?thesis by (rule Suc.IH)
  qed
qed

lemma escape_branch_error: "escape_branch s = Inl e \<Longrightarrow> e \<noteq> IndexError"
  unfolding escape_branch_def Let_def
  by (simp split: if_splits sum.splits option.splits prod.splits add: lexer_error_def)
    (auto dest: read_hex_digits_error)

lemma string_loop_error: "string_loop s result = Inl e \<Longrightarrow> e \<noteq> IndexError"
proof (induction s result rule: string_loop.induct)
  case (1 s result)
  show ?case
  proof (cases "lexer_peek s")
    case None
    with "1.prems" show ?thesis by (auto simp: string_loop.simps [of s] lexer_error_def)
  next
    case (Some char)
    consider (quote) "char = DQUOTE" | (esc) "char \<noteq> DQUOTE" "char = BACKSLASH"
      | (other) "char \<noteq> DQUOTE" "char \<noteq> BACKSLASH" by blast
    then show ?thesis
    proof cases
      case quote
      with Some "1.prems" show ?thesis by (simp add: string_loop.simps [of s])
    next
      case esc
      show ?thesis
      proof (cases "escape_branch s")
        case (Inl e')
        with Some esc "1.prems" have "e = e'" by (simp add: string_loop.simps [of s])
        with escape_branch_error [OF Inl] show ?thesis by simp
      next
        case (Inr x)
        obtain s1 cp where x: "x = (s1, cp)" by (cases x)
        with Inr Some esc "1.prems" have "string_loop s1 (result @ [cp]) = Inl e"
          by (simp add: string_loop.simps [of s])
        from "1.IH"(1) [OF Some esc(1) esc(2) Inr [unfolded x] refl this] show ?thesis .
      qed
    next
      case other
      with Some "1.prems"
      have "string_loop (snd (lexer_advance s)) (result @ [of_char char]) = Inl e"
        by (simp add: string_loop.simps [of s])
      from "1.IH"(2) [OF Some other this] show ?thesis .
    qed
  qed
qed

lemma tokenize_string_error: "tokenize_string s = Inl e \<Longrightarrow> e \<noteq> IndexError"
  by (auto simp: tokenize_string_def Let_def split: sum.splits dest: string_loop_error)

lemma exponent_part_error: "exponent_part s r = Inl e \<Longrightarrow> e = TypeError"
  by (auto simp: exponent_part_def Let_def split: option.splits if_splits)

lemma tokenize_number_error: "tokenize_number s = Inl e \<Longrightarrow> e \<noteq> IndexError"
  by (auto simp: tokenize_number_def Let_def lexer_error_def
      split: sum.splits option.splits prod.splits dest: exponent_part_error)

lemma tokenize_keyword_error: "tokenize_keyword s = Inl e \<Longrightarrow> e \<noteq> IndexError"
  by (auto simp: tokenize_keyword_def Let_def lexer_error_def split: prod.splits if_splits)

lemma tokenize_step_error:
  assumes "tokenize_step s char = Inl e"
  shows "e \<noteq> IndexError"
proof -
  from assms have "tokenize_string s = Inl e \<or> tokenize_number s = Inl e
      \<or> tokenize_keyword s = Inl e \<or> (\<exists>msg. e = lexer_error s msg)"
    unfolding tokenize_step_def by (simp split: if_splits) blast
  then show ?thesis
    by (auto simp: lexer_error_def
        dest: tokenize_string_error tokenize_number_error tokenize_keyword_error)
qed

lemma tokenize_loop_error: "tokenize_loop s = Inl e \<Longrightarrow> e \<noteq> IndexError"
proof (induction s rule: tokenize_loop.induct)
  case (1 s)
  show ?case
  proof (cases "lexer_peek s")
    case None
    with "1.prems" show ?thesis by (simp add: tokenize_loop.simps [of s])
  next
    case (Some char)
    show ?thesis
    proof (cases "tokenize_step s char")
      case (Inl e')
      with Some "1.prems" have "e = e'" by (simp add: tokenize_loop.simps [of s])
      with tokenize_step_error [OF Inl] show ?thesis by simp
    next
      case (Inr s1)
      with Some "1.prems" have "tokenize_loop s1 = Inl e" by (simp add: tokenize_loop.simps [of s])
      from "1.IH" [OF Some Inr this] show ?thesis .
    qed
  qed
qed

lemma tokenize_error: "tokenize s = Inl e \<Longrightarrow> e \<noteq> IndexError"
  by (auto simp: tokenize_def split: sum.splits dest: tokenize_loop_error)

lemma tokenize_nonempty: "tokenize s = Inr toks \<Longrightarrow> toks \<noteq> []"
  by (auto simp: tokenize_def split: sum.splits)

lemma parse_json_safe: "no_index_error (parse_json fuel depth text)"
proof (cases "tokenize (JSONLexer_init text)")
  case (Inl e)
  with tokenize_error [OF Inl] show ?thesis by (simp add: parse_json_def and_then_def)
next
  case (Inr toks)
  from parse_safe [OF tokenize_nonempty [OF Inr]] Inr show ?thesis
    by (simp add: parse_json_def and_then_def)
qed

section \<open>String literals without escapes\<close>

text \<open>
  The loop of \<^verbatim>\<open>tokenize_string\<close> on a run of characters that holds no quote and no
  backslash, followed by a quote: every character is appended to \<^verbatim>\<open>result\<close> and the
  loop stops at the quote.
\<close>

lemma lexer_peek_at:
  assumes "lx_text s = pre @ c # post" and "lx_pos s = length pre"
  shows "lexer_peek s = Some c"
  using assms by (simp add: lexer_peek_def)

lemma lexer_advance_at:
  assumes "lx_text s = pre @ c # post" and "lx_pos s = length pre"
  shows "lx_pos (snd (lexer_advance s)) = length (pre @ [c])"
  using lexer_advance_pos_Some [OF lexer_peek_at [OF assms]] assms(2) by simp

lemma string_loop_raw:
  assumes "lx_text s = pre @ cs @ DQUOTE # post" and "lx_pos s = length pre"
    and "DQUOTE \<notin> set cs" and "BACKSLASH \<notin> set cs"
  shows "\<exists>s'. string_loop s result = Inr (s', result @ map of_char cs)
    \<and> lx_text s' = lx_text s \<and> lx_pos s' = length pre + length cs
    \<and> lx_tokens s' = lx_tokens s"
  using assms
proof (induction cs arbitrary: s pre result)
  case Nil
  then have "lexer_peek s = Some DQUOTE" by (simp add: lexer_peek_at)
  then show ?case using Nil by (simp add: string_loop.simps [of s])
next
  case (Cons c cs)
  from Cons.prems have tx: "lx_text s = pre @ c # (cs @ DQUOTE # post)" by simp
  from lexer_peek_at [OF tx Cons.prems(2)] have pk: "lexer_peek s = Some c" .
  from Cons.prems have c: "c \<noteq> DQUOTE" "c \<noteq> BACKSLASH" by auto
  let ?s1 = "snd (lexer_advance s)"
  have step: "string_loop s result = string_loop ?s1 (result @ [of_char c])"
    using pk c by (simp add: string_loop.simps [of s])
  have t1: "lx_text ?s1 = (pre @ [c]) @ cs @ DQUOTE # post" using tx by simp
  have p1: "lx_pos ?s1 = length (pre @ [c])"
    by (rule lexer_advance_at [OF tx Cons.prems(2)])
  from Cons.prems have "DQUOTE \<notin> set cs" "BACKSLASH \<notin> set cs" by auto
  from Cons.IH [OF t1 p1 this, of "result @ [of_char c]"]
  obtain s' where "string_loop ?s1 (result @ [of_char c]) = Inr (s', (result @ [of_char c]) @ map of_char cs)"
    and "lx_text s' = lx_text ?s1" and "lx_pos s' = length (pre @ [c]) + length cs"
    and "lx_tokens s' = lx_tokens ?s1"
    by blast
  with step show ?case by simp
qed

lemma tokenize_string_raw:
  assumes "lx_text s = pre @ DQUOTE # cs @ DQUOTE # post" and "lx_pos s = length pre"
    and "DQUOTE \<notin> set cs" and "BACKSLASH \<notin> set cs"
  shows "\<exists>s'. tokenize_string s = Inr s'
    \<and> lx_tokens s' = lx_tokens s @ [Token STRING (PStr (ustr cs)) (lx_line s) (lx_column s)]
    \<and> lx_text s' = lx_text s \<and> lx_pos s' = length pre + length cs + 2"
proof -
  let ?s1 = "snd (lexer_advance s)"
  have t1: "lx_text ?s1 = (pre @ [DQUOTE]) @ cs @ DQUOTE # post" using assms(1) by simp
  have p1: "lx_pos ?s1 = length (pre @ [DQUOTE])"
    by (rule lexer_advance_at [OF assms(1,2)])
  from string_loop_raw [OF t1 p1 assms(3,4), of "[]"]
  obtain s2 where l: "string_loop ?s1 [] = Inr (s2, map of_char cs)"
    and t2: "lx_text s2 = lx_text ?s1" and p2: "lx_pos s2 = length (pre @ [DQUOTE]) + length cs"
    and k2: "lx_tokens s2 = lx_tokens ?s1"
    by auto
  have t2': "lx_text s2 = (pre @ DQUOTE # cs) @ DQUOTE # post" using t2 t1 by simp
  have p2': "lx_pos s2 = length (pre @ DQUOTE # cs)" using p2 by simp
  from lexer_advance_at [OF t2' p2'] have "lx_pos (snd (lexer_advance s2)) = length pre + length cs + 2"
    by simp
  with l t2 k2 show ?thesis
    by (simp add: tokenize_string_def Let_def ustr_def)
qed

lemma tokenize_raw_string_document:
  assumes "DQUOTE \<notin> set cs" and "BACKSLASH \<notin> set cs"
  shows "\<exists>l c. tokenize (JSONLexer_init (DQUOTE # cs @ [DQUOTE]))
     = Inr [Token STRING (PStr (ustr cs)) 1 1, Token EOF PNone l c]"
proof -
  let ?s = "JSONLexer_init (DQUOTE # cs @ [DQUOTE])"
  have t: "lx_text ?s = [] @ DQUOTE # cs @ DQUOTE # []" and p: "lx_pos ?s = length ([] :: string)"
    by (simp_all add: JSONLexer_init_def)
  from tokenize_string_raw [OF t p assms]
  obtain s' where ts: "tokenize_string ?s = Inr s'"
    and k: "lx_tokens s' = [Token STRING (PStr (ustr cs)) 1 1]"
    and t': "lx_text s' = lx_text ?s" and p': "lx_pos s' = length cs + 2"
    by (auto simp: JSONLexer_init_def)
  have pk: "lexer_peek ?s = Some DQUOTE" by (rule lexer_peek_at [OF t p])
  have step: "tokenize_step ?s DQUOTE = Inr s'" using ts by (simp add: tokenize_step_def)
  have "lexer_peek s' = None" using t' p' by (simp add: lexer_peek_def JSONLexer_init_def)
  then have "tokenize_loop s' = Inr s'" by (simp add: tokenize_loop.simps [of s'])
  with pk step have "tokenize_loop ?s = Inr s'" by (simp add: tokenize_loop.simps [of ?s])
  with k show ?thesis by (simp add: tokenize_def)
qed

lemma parse_single_string:
  "parse (Suc k) d [Token STRING v l c, Token EOF PNone l' c'] = Some (Inr v)"
  by (simp add: parse_def parse_value_body_def and_then_def
      current_token_nonempty parser_advance_nonempty)

section \<open>Well-formed documents\<close>

text \<open>
  The grammar of the documents the parser accepts: a value is a string, a number, \<^verbatim>\<open>true\<close>,
  \<^verbatim>\<open>false\<close>, \<^verbatim>\<open>null\<close>, an object (members \<^verbatim>\<open>string : value\<close> between braces, separated by
  commas) or an array (values between brackets, separated by commas). A number carries the
  value of its token.
\<close>

datatype json = JString pystr | JNumber pyvalue | JTrue | JFalse | JNull
  | JObject "(pystr \<times> json) list" | JArray "json list"

text \<open>
  A document as the tokens of the lexer, each given by its type and its value; the line
  and the column of a token play no part in what the parser returns.
\<close>

definition type_and_value :: "Token \<Rightarrow> TokenType \<times> pyvalue" where
  "type_and_value t = (ttype t, tvalue t)"

fun separated :: "(TokenType \<times> pyvalue) list list \<Rightarrow> (TokenType \<times> pyvalue) list" where
  "separated [] = []"
| "separated [ts] = ts"
| "separated (ts # us # tss) = ts @ (COMMA, PStr (ustr '','')) # separated (us # tss)"

definition member_tokens :: "pystr \<Rightarrow> (TokenType \<times> pyvalue) list \<Rightarrow> (TokenType \<times> pyvalue) list" where
  "member_tokens k ts = (STRING, PStr k) # (COLON, PStr (ustr '':'')) # ts"

fun tokens_of :: "json \<Rightarrow> (TokenType \<times> pyvalue) list" where
  "tokens_of (JString s) = [(STRING, PStr s)]"
| "tokens_of (JNumber v) = [(NUMBER, v)]"
| "tokens_of JTrue = [(TRUE, PBool True)]"
| "tokens_of JFalse = [(FALSE, PBool False)]"
| "tokens_of JNull = [(NULL, PNone)]"
| "tokens_of (JObject ms) =
     (LBRACE, PStr (ustr ''{''))
       # separated (map (\<lambda>(k, v). member_tokens k (tokens_of v)) ms)
       @ [(RBRACE, PStr (ustr ''}''))]"
| "tokens_of (JArray xs) =
     (LBRACKET, PStr (ustr ''['')) # separated (map tokens_of xs) @ [(RBRACKET, PStr (ustr '']''))]"

text \<open>
  The Python value of a document: the members of an object are assigned to a \<^verbatim>\<open>dict\<close>, one
  after the other from the left, starting from the empty one.
\<close>

fun value_of :: "json \<Rightarrow> pyvalue" where
  "value_of (JString s) = PStr s"
| "value_of (JNumber v) = v"
| "value_of JTrue = PBool True"
| "value_of JFalse = PBool False"
| "value_of JNull = PNone"
| "value_of (JObject ms) =
     PDict (foldl (\<lambda>obj (k, v). dict_update obj k v) []
              (map (\<lambda>(k, v). (PStr k, value_of v)) ms))"
| "value_of (JArray xs) = PList (map value_of xs)"

text \<open>
  The number of containers, one inside the other, on the deepest path of a document: the
  depth that the calls of \<^verbatim>\<open>parse_object\<close> and \<^verbatim>\<open>parse_array\<close> reach on it.
\<close>

fun nesting :: "json \<Rightarrow> nat" where
  "nesting (JObject ms) = Suc (foldr max (map (\<lambda>(k, v). nesting v) ms) 0)"
| "nesting (JArray xs) = Suc (foldr max (map nesting xs) 0)"
| "nesting j = 0"

text \<open>The elements of a list in the order of their first occurrences.\<close>

definition first_seen :: "'a list \<Rightarrow> 'a list" where
  "first_seen xs = rev (remdups (rev xs))"

lemma tokens_at_Cons:
  assumes "map type_and_value (drop pos toks) = (ty, v) # ks"
  shows "pos < length toks" "ttype (toks ! pos) = ty" "tvalue (toks ! pos) = v"
    "map type_and_value (drop (Suc pos) toks) = ks"
proof -
  from assms have "drop pos toks \<noteq> []" by auto
  then show lt: "pos < length toks" by simp
  from Cons_nth_drop_Suc [OF lt] assms
  have "type_and_value (toks ! pos) # map type_and_value (drop (Suc pos) toks) = (ty, v) # ks"
    by (metis list.simps(9))
  then show "ttype (toks ! pos) = ty" "tvalue (toks ! pos) = v"
    "map type_and_value (drop (Suc pos) toks) = ks"
    by (simp_all add: type_and_value_def)
qed

lemma current_token_at:
  assumes "map type_and_value (drop pos toks) = (ty, v) # ks"
  shows "current_token toks pos = Inr (toks ! pos)"
proof -
  from tokens_at_Cons(1) [OF assms] have lt: "pos < length toks" .
  then have ne: "toks \<noteq> []" by auto
  from lt have "min pos (length toks - 1) = pos" by simp
  then show ?thesis by (simp add: current_token_nonempty [OF ne])
qed

lemma read_token:
  assumes "map type_and_value (drop pos toks) = (ty, v) # ks" and "ks \<noteq> []"
  shows "parser_advance toks pos = Inr (toks ! pos, Suc pos)"
    and "expect toks pos ty = Inr (toks ! pos, Suc pos)"
proof -
  note h = tokens_at_Cons [OF assms(1)]
  from h(4) assms(2) have "drop (Suc pos) toks \<noteq> []" by auto
  then have lt: "Suc pos < length toks" by simp
  then have ne: "toks \<noteq> []" by auto
  from lt have m: "min pos (length toks - 1) = pos" by simp
  show "parser_advance toks pos = Inr (toks ! pos, Suc pos)"
    using lt by (simp add: parser_advance_nonempty [OF ne] m)
  show "expect toks pos ty = Inr (toks ! pos, Suc pos)"
    using lt h(2) by (simp add: expect_nonempty [OF ne] m)
qed

lemma tokens_at_append:
  assumes "map type_and_value (drop pos toks) = ks @ rest"
  shows "map type_and_value (drop (pos + length ks) toks) = rest"
proof -
  have "map type_and_value (drop (pos + length ks) toks)
      = drop (length ks) (map type_and_value (drop pos toks))"
    by (simp add: drop_map add.commute)
  with assms show ?thesis by simp
qed

lemma separated_Cons:
  "tss \<noteq> [] \<Longrightarrow> separated (ts # tss) = ts @ (COMMA, PStr (ustr '','')) # separated tss"
  by (cases tss) simp_all

lemma tokens_of_first:
  "\<exists>ty v ks. tokens_of j = (ty, v) # ks \<and> ty \<noteq> RBRACE \<and> ty \<noteq> RBRACKET \<and> ty \<noteq> COMMA"
  by (cases j) auto

lemma elements_first:
  assumes "xs \<noteq> []"
  shows "\<exists>ty v ks. separated (map tokens_of xs) = (ty, v) # ks \<and> ty \<noteq> RBRACKET"
proof -
  from assms obtain x ys where xs: "xs = x # ys" by (cases xs) auto
  from tokens_of_first [of x] obtain ty v ks where "tokens_of x = (ty, v) # ks" "ty \<noteq> RBRACKET"
    by blast
  then show ?thesis by (cases ys) (simp_all add: xs)
qed

lemma members_first:
  assumes "ms \<noteq> []"
  shows "\<exists>v ks. separated (map (\<lambda>(k, v). member_tokens k (tokens_of v)) ms) = (STRING, v) # ks
     \<and> ks \<noteq> []"
proof -
  from assms obtain k x ys where ms: "ms = (k, x) # ys" by (cases ms) auto
  show ?thesis by (cases ys) (simp_all add: ms member_tokens_def)
qed


lemma foldr_max_le: "foldr max (map f xs) 0 \<le> (d::nat) \<longleftrightarrow> (\<forall>x \<in> set xs. f x \<le> d)"
  by (induction xs) auto

text \<open>
  \<^verbatim>\<open>parse_value\<close> on the tokens of a document, when at least one more token follows them:
  if the call stack has room for the nesting of the document, it returns the value of the
  document and leaves the cursor on the token that follows; if not, it raises
  \<^verbatim>\<open>RecursionError\<close>. Twice the number of the tokens is enough fuel.
\<close>

definition value_parsed :: "json \<Rightarrow> bool" where
  "value_parsed j \<longleftrightarrow>
     (\<forall>toks pos n d rest.
        map type_and_value (drop pos toks) = tokens_of j @ rest \<longrightarrow> rest \<noteq> [] \<longrightarrow>
        2 * length (tokens_of j) \<le> Suc n \<longrightarrow>
        parse_value n d toks pos
          = (if nesting j \<le> d then Some (Inr (value_of j, pos + length (tokens_of j)))
             else Some (Inl RecursionError)))"

lemma value_parsedD:
  assumes "value_parsed j"
    and "map type_and_value (drop pos toks) = tokens_of j @ rest" and "rest \<noteq> []"
    and "2 * length (tokens_of j) \<le> Suc n"
  shows "parse_value n d toks pos
    = (if nesting j \<le> d then Some (Inr (value_of j, pos + length (tokens_of j)))
       else Some (Inl RecursionError))"
  using assms unfolding value_parsed_def by blast

lemma tokens_of_length: "0 < length (tokens_of j)"
  using tokens_of_first [of j] by auto

lemma array_loop_elements:
  assumes "xs \<noteq> []"
  shows "(\<forall>x \<in> set xs. value_parsed x) \<Longrightarrow>
    map type_and_value (drop pos toks) = separated (map tokens_of xs) @ (RBRACKET, rb) # rest \<Longrightarrow>
    rest \<noteq> [] \<Longrightarrow> 2 * length (separated (map tokens_of xs)) \<le> n \<Longrightarrow>
    array_loop n d toks pos arr
      = (if \<forall>x \<in> set xs. nesting x \<le> d
         then Some (Inr (PList (arr @ map value_of xs),
                         Suc (pos + length (separated (map tokens_of xs)))))
         else Some (Inl RecursionError))"
  using assms
proof (induction xs arbitrary: pos n arr rule: list_nonempty_induct)
  case (single x)
  let ?k = "length (tokens_of x)"
  from single.prems(4) tokens_of_length [of x] obtain n' where n: "n = Suc n'"
    by (cases n) auto
  from single.prems(2) have eq: "map type_and_value (drop pos toks)
      = tokens_of x @ (RBRACKET, rb) # rest" by simp
  have pv: "parse_value n' d toks pos
      = (if nesting x \<le> d then Some (Inr (value_of x, pos + ?k))
         else Some (Inl RecursionError))"
    using single.prems(1,4) by (intro value_parsedD [OF _ eq]) (simp_all add: n)
  from tokens_at_append [OF eq]
  have at: "map type_and_value (drop (pos + ?k) toks) = (RBRACKET, rb) # rest" .
  note r = current_token_at [OF at] tokens_at_Cons(2) [OF at] read_token [OF at single.prems(3)]
  show ?case
    by (simp add: n array_loop_body_def and_then_def pv r)
next
  case (cons x xs)
  let ?k = "length (tokens_of x)"
  let ?s = "separated (map tokens_of xs)"
  from cons.hyps have sep: "separated (map tokens_of (x # xs))
      = tokens_of x @ (COMMA, PStr (ustr '','')) # ?s"
    by (simp add: separated_Cons)
  from cons.prems(4) have bound: "2 * (?k + 1 + length ?s) \<le> n"
    by (simp only: sep) simp
  then obtain n' where n: "n = Suc n'"
    by (cases n) auto
  from cons.prems(2) have eq: "map type_and_value (drop pos toks)
      = tokens_of x @ (COMMA, PStr (ustr '','')) # (?s @ (RBRACKET, rb) # rest)"
    by (simp only: sep) simp
  have pv: "parse_value n' d toks pos
      = (if nesting x \<le> d then Some (Inr (value_of x, pos + ?k))
         else Some (Inl RecursionError))"
    using cons.prems(1) bound by (intro value_parsedD [OF _ eq]) (simp_all add: n)
  from tokens_at_append [OF eq]
  have at: "map type_and_value (drop (pos + ?k) toks)
      = (COMMA, PStr (ustr '','')) # (?s @ (RBRACKET, rb) # rest)" .
  have ne: "?s @ (RBRACKET, rb) # rest \<noteq> []" by simp
  note r = current_token_at [OF at] tokens_at_Cons(2) [OF at] read_token [OF at ne]
  from tokens_at_Cons(4) [OF at]
  have at2: "map type_and_value (drop (Suc (pos + ?k)) toks) = ?s @ (RBRACKET, rb) # rest" .
  from elements_first [OF cons.hyps(1)] obtain ty v ks
    where first: "?s = (ty, v) # ks" and ty: "ty \<noteq> RBRACKET" by blast
  from at2 have at3: "map type_and_value (drop (Suc (pos + ?k)) toks)
      = (ty, v) # (ks @ (RBRACKET, rb) # rest)" by (simp add: first)
  note r2 = current_token_at [OF at3] tokens_at_Cons(2) [OF at3]
  have loop: "array_loop n' d toks (Suc (pos + ?k)) (arr @ [value_of x])
      = (if \<forall>x \<in> set xs. nesting x \<le> d
         then Some (Inr (PList ((arr @ [value_of x]) @ map value_of xs),
                         Suc (Suc (pos + ?k) + length ?s)))
         else Some (Inl RecursionError))"
    using cons.prems(1) bound by (intro cons.IH [OF _ at2 cons.prems(3)]) (simp_all add: n)
  show ?case
    by (simp only: sep) (simp add: n array_loop_body_def and_then_def pv r r2 ty loop)
qed

abbreviation member_value :: "pystr \<times> json \<Rightarrow> pyvalue \<times> pyvalue" where
  "member_value \<equiv> \<lambda>(k, v). (PStr k, value_of v)"

abbreviation members_tokens :: "(pystr \<times> json) list \<Rightarrow> (TokenType \<times> pyvalue) list" where
  "members_tokens ms \<equiv> separated (map (\<lambda>(k, v). member_tokens k (tokens_of v)) ms)"

lemma object_loop_members:
  assumes "ms \<noteq> []"
  shows "(\<forall>(k, x) \<in> set ms. value_parsed x) \<Longrightarrow>
    map type_and_value (drop pos toks) = members_tokens ms @ (RBRACE, rb) # rest \<Longrightarrow>
    rest \<noteq> [] \<Longrightarrow> 2 * length (members_tokens ms) \<le> n \<Longrightarrow>
    object_loop n d toks pos obj
      = (if \<forall>(k, x) \<in> set ms. nesting x \<le> d
         then Some (Inr (PDict (foldl (\<lambda>obj (k, v). dict_update obj k v) obj
                                  (map member_value ms)),
                         Suc (pos + length (members_tokens ms))))
         else Some (Inl RecursionError))"
  using assms
proof (induction ms arbitrary: pos n obj rule: list_nonempty_induct)
  case (single m)
  obtain k x where m: "m = (k, x)" by (cases m)
  let ?k = "length (tokens_of x)"
  from single.prems(4) obtain n' where n: "n = Suc n'"
    by (cases n) (auto simp: m member_tokens_def)
  from single.prems(2) have eq0: "map type_and_value (drop pos toks)
      = (STRING, PStr k) # (COLON, PStr (ustr '':'')) # (tokens_of x @ (RBRACE, rb) # rest)"
    by (simp add: m member_tokens_def)
  note r0 = tokens_at_Cons(3) [OF eq0] read_token(2) [OF eq0]
  from tokens_at_Cons(4) [OF eq0]
  have eq1: "map type_and_value (drop (Suc pos) toks)
      = (COLON, PStr (ustr '':'')) # (tokens_of x @ (RBRACE, rb) # rest)" .
  note r1 = read_token(2) [OF eq1]
  from tokens_at_Cons(4) [OF eq1]
  have eq: "map type_and_value (drop (Suc (Suc pos)) toks) = tokens_of x @ (RBRACE, rb) # rest" .
  have "parse_value n' d toks (Suc (Suc pos))
      = (if nesting x \<le> d then Some (Inr (value_of x, Suc (Suc pos) + ?k))
         else Some (Inl RecursionError))"
    using single.prems(1,4) by (intro value_parsedD [OF _ eq]) (simp_all add: n m member_tokens_def)
  then have pv: "parse_value n' d toks (Suc (Suc pos))
      = (if nesting x \<le> d then Some (Inr (value_of x, Suc (Suc (pos + ?k))))
         else Some (Inl RecursionError))"
    by simp
  from tokens_at_append [OF eq]
  have at: "map type_and_value (drop (Suc (Suc (pos + ?k))) toks) = (RBRACE, rb) # rest"
    by simp
  note r = current_token_at [OF at] tokens_at_Cons(2) [OF at] read_token [OF at single.prems(3)]
  show ?case
    by (simp add: n object_loop_body_def and_then_def pv r0 r1 r dict_setitem_def m
        member_tokens_def)
next
  case (cons m ms)
  obtain k x where m: "m = (k, x)" by (cases m)
  let ?k = "length (tokens_of x)"
  let ?s = "members_tokens ms"
  from cons.hyps have sep: "members_tokens (m # ms)
      = (STRING, PStr k) # (COLON, PStr (ustr '':''))
          # (tokens_of x @ (COMMA, PStr (ustr '','')) # ?s)"
    by (simp add: separated_Cons m member_tokens_def)
  from cons.prems(4) have bound: "2 * (2 + ?k + 1 + length ?s) \<le> n"
    by (simp only: sep) simp
  then obtain n' where n: "n = Suc n'"
    by (cases n) auto
  from cons.prems(2) have eq0: "map type_and_value (drop pos toks)
      = (STRING, PStr k) # (COLON, PStr (ustr '':''))
          # (tokens_of x @ (COMMA, PStr (ustr '','')) # (?s @ (RBRACE, rb) # rest))"
    by (simp only: sep) simp
  note r0 = tokens_at_Cons(3) [OF eq0] read_token(2) [OF eq0]
  from tokens_at_Cons(4) [OF eq0]
  have eq1: "map type_and_value (drop (Suc pos) toks)
      = (COLON, PStr (ustr '':''))
          # (tokens_of x @ (COMMA, PStr (ustr '','')) # (?s @ (RBRACE, rb) # rest))" .
  note r1 = read_token(2) [OF eq1]
  from tokens_at_Cons(4) [OF eq1]
  have eq: "map type_and_value (drop (Suc (Suc pos)) toks)
      = tokens_of x @ (COMMA, PStr (ustr '','')) # (?s @ (RBRACE, rb) # rest)" .
  have "parse_value n' d toks (Suc (Suc pos))
      = (if nesting x \<le> d then Some (Inr (value_of x, Suc (Suc pos) + ?k))
         else Some (Inl RecursionError))"
    using cons.prems(1) bound by (intro value_parsedD [OF _ eq]) (simp_all add: n m)
  then have pv: "parse_value n' d toks (Suc (Suc pos))
      = (if nesting x \<le> d then Some (Inr (value_of x, Suc (Suc (pos + ?k))))
         else Some (Inl RecursionError))"
    by simp
  from tokens_at_append [OF eq]
  have at: "map type_and_value (drop (Suc (Suc (pos + ?k))) toks)
      = (COMMA, PStr (ustr '','')) # (?s @ (RBRACE, rb) # rest)"
    by simp
  have ne: "?s @ (RBRACE, rb) # rest \<noteq> []" by simp
  note r = current_token_at [OF at] tokens_at_Cons(2) [OF at] read_token [OF at ne]
  from tokens_at_Cons(4) [OF at]
  have at2: "map type_and_value (drop (Suc (Suc (Suc (pos + ?k)))) toks)
      = ?s @ (RBRACE, rb) # rest" .
  from members_first [OF cons.hyps(1)] obtain v ks
    where first: "?s = (STRING, v) # ks" by blast
  from at2 have at3: "map type_and_value (drop (Suc (Suc (Suc (pos + ?k)))) toks)
      = (STRING, v) # (ks @ (RBRACE, rb) # rest)" by (simp add: first)
  note r2 = current_token_at [OF at3] tokens_at_Cons(2) [OF at3]
  have loop: "object_loop n' d toks (Suc (Suc (Suc (pos + ?k))))
        (dict_update obj (PStr k) (value_of x))
      = (if \<forall>(k, x) \<in> set ms. nesting x \<le> d
         then Some (Inr (PDict (foldl (\<lambda>obj (k, v). dict_update obj k v)
                                  (dict_update obj (PStr k) (value_of x)) (map member_value ms)),
                         Suc (Suc (Suc (Suc (pos + ?k))) + length ?s)))
         else Some (Inl RecursionError))"
    using cons.prems(1) bound by (intro cons.IH [OF _ at2 cons.prems(3)]) (simp_all add: n)
  show ?case
    by (simp only: sep)
      (simp add: n object_loop_body_def and_then_def pv r0 r1 r r2 loop dict_setitem_def m)
qed

lemma scalar_parsed:
  assumes "tokens_of j = [(ty, v)]" and "ty \<in> {STRING, NUMBER, TRUE, FALSE, NULL}"
    and "value_of j = (if ty = STRING \<or> ty = NUMBER then v
          else if ty = TRUE then PBool True else if ty = FALSE then PBool False else PNone)"
    and "nesting j = 0"
  shows "value_parsed j"
  unfolding value_parsed_def
proof (intro allI impI)
  fix toks pos n d rest
  assume eq: "map type_and_value (drop pos toks) = tokens_of j @ rest" and ne: "rest \<noteq> []"
    and "2 * length (tokens_of j) \<le> Suc n"
  then obtain n' where n: "n = Suc n'" by (cases n) (auto simp: assms(1))
  from eq have at: "map type_and_value (drop pos toks) = (ty, v) # rest" by (simp add: assms(1))
  note r = current_token_at [OF at] tokens_at_Cons(2,3) [OF at] read_token [OF at ne]
  from assms(2,3)
  show "parse_value n d toks pos
      = (if nesting j \<le> d then Some (Inr (value_of j, pos + length (tokens_of j)))
         else Some (Inl RecursionError))"
    by (auto simp: n parse_value_body_def and_then_def r assms(1,4))
qed

lemma array_parsed:
  assumes "\<forall>x \<in> set xs. value_parsed x"
  shows "value_parsed (JArray xs)"
  unfolding value_parsed_def
proof (intro allI impI)
  fix toks pos n d rest
  let ?s = "separated (map tokens_of xs)"
  assume "map type_and_value (drop pos toks) = tokens_of (JArray xs) @ rest"
    and ne: "rest \<noteq> []" and "2 * length (tokens_of (JArray xs)) \<le> Suc n"
  then have eq: "map type_and_value (drop pos toks)
      = (LBRACKET, PStr (ustr ''['')) # (?s @ (RBRACKET, PStr (ustr '']'')) # rest)"
    and bound: "2 * length ?s + 3 \<le> n" by simp_all
  from bound obtain n' where n: "n = Suc (Suc n')" and bound': "2 * length ?s \<le> n'"
    by (cases n; cases "n - 1") auto
  have ne1: "?s @ (RBRACKET, PStr (ustr '']'')) # rest \<noteq> []" by simp
  note r = current_token_at [OF eq] tokens_at_Cons(2) [OF eq] read_token [OF eq ne1]
  from tokens_at_Cons(4) [OF eq]
  have at: "map type_and_value (drop (Suc pos) toks) = ?s @ (RBRACKET, PStr (ustr '']'')) # rest" .
  show "parse_value n d toks pos
      = (if nesting (JArray xs) \<le> d
         then Some (Inr (value_of (JArray xs), pos + length (tokens_of (JArray xs))))
         else Some (Inl RecursionError))"
  proof (cases d)
    case 0
    show ?thesis by (simp add: n 0 parse_value_body_def and_then_def r)
  next
    case (Suc d')
    show ?thesis
    proof (cases "xs = []")
      case True
      with at have at1: "map type_and_value (drop (Suc pos) toks)
          = (RBRACKET, PStr (ustr '']'')) # rest"
        by simp
      note r1 = current_token_at [OF at1] tokens_at_Cons(2) [OF at1] read_token [OF at1 ne]
      show ?thesis
        by (simp add: n Suc parse_value_body_def parse_array_body_def and_then_def r r1 True)
    next
      case False
      from elements_first [OF False] obtain ty v ks
        where first: "?s = (ty, v) # ks" and ty: "ty \<noteq> RBRACKET" by blast
      from at have at1: "map type_and_value (drop (Suc pos) toks)
          = (ty, v) # (ks @ (RBRACKET, PStr (ustr '']'')) # rest)" by (simp add: first)
      note r1 = current_token_at [OF at1] tokens_at_Cons(2) [OF at1]
      note loop = array_loop_elements [OF False assms at ne bound', where d = d' and arr = "[]"]
      show ?thesis
        by (simp add: n Suc parse_value_body_def parse_array_body_def and_then_def r r1 ty loop
            foldr_max_le)
    qed
  qed
qed

lemma object_parsed:
  assumes "\<forall>(k, x) \<in> set ms. value_parsed x"
  shows "value_parsed (JObject ms)"
  unfolding value_parsed_def
proof (intro allI impI)
  fix toks pos n d rest
  let ?s = "members_tokens ms"
  assume "map type_and_value (drop pos toks) = tokens_of (JObject ms) @ rest"
    and ne: "rest \<noteq> []" and "2 * length (tokens_of (JObject ms)) \<le> Suc n"
  then have eq: "map type_and_value (drop pos toks)
      = (LBRACE, PStr (ustr ''{'')) # (?s @ (RBRACE, PStr (ustr ''}'')) # rest)"
    and bound: "2 * length ?s + 3 \<le> n" by simp_all
  from bound obtain n' where n: "n = Suc (Suc n')" and bound': "2 * length ?s \<le> n'"
    by (cases n; cases "n - 1") auto
  have ne1: "?s @ (RBRACE, PStr (ustr ''}'')) # rest \<noteq> []" by simp
  note r = current_token_at [OF eq] tokens_at_Cons(2) [OF eq] read_token [OF eq ne1]
  from tokens_at_Cons(4) [OF eq]
  have at: "map type_and_value (drop (Suc pos) toks) = ?s @ (RBRACE, PStr (ustr ''}'')) # rest" .
  show "parse_value n d toks pos
      = (if nesting (JObject ms) \<le> d
         then Some (Inr (value_of (JObject ms), pos + length (tokens_of (JObject ms))))
         else Some (Inl RecursionError))"
  proof (cases d)
    case 0
    show ?thesis by (simp add: n 0 parse_value_body_def and_then_def r)
  next
    case (Suc d')
    show ?thesis
    proof (cases "ms = []")
      case True
      with at have at1: "map type_and_value (drop (Suc pos) toks)
          = (RBRACE, PStr (ustr ''}'')) # rest"
        by simp
      note r1 = current_token_at [OF at1] tokens_at_Cons(2) [OF at1] read_token [OF at1 ne]
      show ?thesis
        by (simp add: n Suc parse_value_body_def parse_object_body_def and_then_def r r1 True)
    next
      case False
      from members_first [OF False] obtain v ks
        where first: "?s = (STRING, v) # ks" by blast
      from at have at1: "map type_and_value (drop (Suc pos) toks)
          = (STRING, v) # (ks @ (RBRACE, PStr (ustr ''}'')) # rest)" by (simp add: first)
      note r1 = current_token_at [OF at1] tokens_at_Cons(2) [OF at1]
      note loop = object_loop_members [OF False assms at ne bound', where d = d' and obj = "[]"]
      show ?thesis
        by (simp add: n Suc parse_value_body_def parse_object_body_def and_then_def r r1 loop
            foldr_max_le case_prod_beta)
    qed
  qed
qed

lemma every_value_parsed: "value_parsed j"
proof (induction j)
  case (JObject ms)
  then have "\<forall>(k, x) \<in> set ms. value_parsed x" by fastforce
  then show ?case by (rule object_parsed)
next
  case (JArray xs)
  then show ?case by (intro array_parsed) simp
next
  case (JString s)
  show ?case by (rule scalar_parsed [where ty = STRING and v = "PStr s"]) simp_all
next
  case (JNumber v)
  show ?case by (rule scalar_parsed [where ty = NUMBER and v = v]) simp_all
next
  case JTrue
  show ?case by (rule scalar_parsed [where ty = TRUE and v = "PBool True"]) simp_all
next
  case JFalse
  show ?case by (rule scalar_parsed [where ty = FALSE and v = "PBool False"]) simp_all
next
  case JNull
  show ?case by (rule scalar_parsed [where ty = NULL and v = PNone]) simp_all
qed

text \<open>
  \<^verbatim>\<open>parse\<close> on the tokens of a document followed by \<^verbatim>\<open>EOF\<close>: the value of the document
  when the call stack has room for its nesting, \<^verbatim>\<open>RecursionError\<close> when it has not.
\<close>

lemma parse_well_formed:
  assumes "map type_and_value toks = tokens_of j @ [(EOF, PNone)]"
    and "2 * length toks \<le> fuel"
  shows "parse fuel d toks
    = (if nesting j \<le> d then Some (Inr (value_of j)) else Some (Inl RecursionError))"
proof -
  from assms(1) have eq: "map type_and_value (drop 0 toks) = tokens_of j @ [(EOF, PNone)]"
    by simp
  from arg_cong [OF assms(1), of length] have len: "length toks = Suc (length (tokens_of j))"
    by simp
  have pv: "parse_value fuel d toks 0
      = (if nesting j \<le> d then Some (Inr (value_of j, 0 + length (tokens_of j)))
         else Some (Inl RecursionError))"
    using assms(2) by (intro value_parsedD [OF every_value_parsed eq]) (simp_all add: len)
  from tokens_at_append [OF eq]
  have at: "map type_and_value (drop (length (tokens_of j)) toks) = [(EOF, PNone)]" by simp
  note r = current_token_at [OF at] tokens_at_Cons(2) [OF at]
  from pv show ?thesis
    by (simp add: parse_def and_then_def r)
qed

text \<open>Assignments to a \<^verbatim>\<open>dict\<close>: the keys and the values after a run of them.\<close>

lemma dict_update_keys:
  "map fst (dict_update d k v) = (if k \<in> set (map fst d) then map fst d else map fst d @ [k])"
  by (induction d k v rule: dict_update.induct) auto

lemma dict_update_map_of: "map_of (dict_update d k v) = (map_of d)(k \<mapsto> v)"
  by (induction d k v rule: dict_update.induct) auto

lemma first_seen_snoc:
  "first_seen (ks @ [k]) = (if k \<in> set (first_seen ks) then first_seen ks else first_seen ks @ [k])"
  by (simp add: first_seen_def)

lemma foldl_dict_update_keys:
  "map fst (foldl (\<lambda>obj (k, v). dict_update obj k v) [] kvs) = first_seen (map fst kvs)"
proof (induction kvs rule: rev_induct)
  case Nil
  show ?case by (simp add: first_seen_def)
next
  case (snoc kv kvs)
  then show ?case by (cases kv) (simp add: dict_update_keys first_seen_snoc)
qed

lemma foldl_dict_update_map_of:
  "map_of (foldl (\<lambda>obj (k, v). dict_update obj k v) [] kvs) = map_of (rev kvs)"
proof (induction kvs rule: rev_induct)
  case Nil
  show ?case by simp
next
  case (snoc kv kvs)
  then show ?case by (cases kv) (simp add: dict_update_map_of)
qed

lemma member_value_keys: "map fst (map member_value ms) = map (\<lambda>(k, v). PStr k) ms"
  by (induction ms) auto

text \<open>
  A document nested as deep as one likes: \<^verbatim>\<open>{"a":1,"a":2}\<close> inside \<open>n\<close> objects
  \<^verbatim>\<open>{"a": ... }\<close>. Its tokens are given the position line 1, column 1, which the parser
  reads only to report a parse error.
\<close>

fun deep_object :: "nat \<Rightarrow> json" where
  "deep_object 0 = JObject [(ustr ''a'', JNumber (PInt 1)), (ustr ''a'', JNumber (PInt 2))]"
| "deep_object (Suc n) = JObject [(ustr ''a'', deep_object n)]"

definition token_at_origin :: "TokenType \<times> pyvalue \<Rightarrow> Token" where
  "token_at_origin tv = Token (fst tv) (snd tv) 1 1"

definition document_tokens :: "json \<Rightarrow> Token list" where
  "document_tokens j = map token_at_origin (tokens_of j @ [(EOF, PNone)])"

lemma nesting_deep_object: "nesting (deep_object n) = Suc n"
  by (induction n) simp_all

lemma type_and_value_document_tokens:
  "map type_and_value (document_tokens j) = tokens_of j @ [(EOF, PNone)]"
proof -
  have "type_and_value \<circ> token_at_origin = id"
    by (rule ext) (simp add: type_and_value_def token_at_origin_def)
  then show ?thesis
    unfolding document_tokens_def map_map by simp
qed

section \<open>The claims\<close>

subsection \<open>Scalar documents\<close>

text \<open>
  C1 says that each of the documents \<^verbatim>\<open>42\<close>, \<^verbatim>\<open>true\<close> and \<^verbatim>\<open>null\<close> is parsed to its
  scalar value without any exception. The code does so for \<^verbatim>\<open>true\<close> and \<^verbatim>\<open>null\<close>
  (lemma \<open>keyword_roots_parse\<close>), but not for \<^verbatim>\<open>42\<close>: when the number ends the input,
  \<^verbatim>\<open>tokenize_number\<close> evaluates \<^verbatim>\<open>self.peek() in 'eE'\<close> with \<^verbatim>\<open>peek()\<close> equal to
  \<^verbatim>\<open>None\<close>, and Python raises \<^verbatim>\<open>TypeError\<close>. The theorem below runs the code on
  \<^verbatim>\<open>42\<close>, for every amount of fuel and every room on the call stack.
\<close>

theorem number_root_raises_TypeError: \<open>parse_json fuel depth ''42'' = Some (Inl TypeError)\<close>
proof -
  have "tokenize (JSONLexer_init ''42'') = Inl TypeError" by code_simp
  then show ?thesis by (simp add: parse_json_def and_then_def)
qed

lemma keyword_roots_parse:
  \<open>parse_json (1 + k) d ''true'' = Some (Inr (PBool True))\<close>
  \<open>parse_json (1 + k) d ''null'' = Some (Inr PNone)\<close>
proof -
  have "parse_json 1 d ''true'' = Some (Inr (PBool True))"
    and "parse_json 1 d ''null'' = Some (Inr PNone)"
    by code_simp+
  then show \<open>parse_json (1 + k) d ''true'' = Some (Inr (PBool True))\<close>
    and \<open>parse_json (1 + k) d ''null'' = Some (Inr PNone)\<close>
    by (auto intro: parse_json_mono)
qed

subsection \<open>The escape \<^verbatim>\<open>\u\<close>\<close>

text \<open>
  C2 says that a \<^verbatim>\<open>\u\<close> escape followed by fewer than four characters fails with a lexer
  error that carries a message and a position, and with no other kind of failure. On the
  five characters \<^verbatim>\<open>"\u12\<close> the code raises \<^verbatim>\<open>TypeError\<close> instead: the third call of
  \<^verbatim>\<open>advance\<close> returns \<^verbatim>\<open>None\<close>, which \<^verbatim>\<open>hex_digits += ...\<close> cannot add to a string.
\<close>

theorem short_unicode_escape_raises_TypeError:
  \<open>tokenize (JSONLexer_init (''"'' @ [BACKSLASH] @ ''u12'')) = Inl TypeError\<close>
  by code_simp

text \<open>
  C9 says that the four characters after \<^verbatim>\<open>\u\<close> go to an integer conversion that accepts
  a sign and surrounding white space: the string literals \<^verbatim>\<open>"\u+041"\<close> and \<^verbatim>\<open>"\u 41 "\<close>
  (a space before and after \<^verbatim>\<open>41\<close>) both decode to the one character \<^verbatim>\<open>A\<close>, U+0041.
\<close>

theorem unicode_escape_accepts_sign_and_spaces:
  \<open>tokenize (JSONLexer_init (''"'' @ [BACKSLASH] @ ''u+041"''))
     = Inr [Token STRING (PStr (ustr ''A'')) 1 1, Token EOF PNone 1 9]
   \<and> tokenize (JSONLexer_init (''"'' @ [BACKSLASH] @ ''u 41 "''))
     = Inr [Token STRING (PStr (ustr ''A'')) 1 1, Token EOF PNone 1 9]\<close>
  by code_simp

subsection \<open>Trailing commas\<close>

text \<open>
  C4 says that \<^verbatim>\<open>[1,2,]\<close> fails with the error "Trailing comma in array" and
  \<^verbatim>\<open>{"a":1,}\<close> with the error "Trailing comma in object", raised after the comma has been
  consumed, with the closing bracket or brace as current token (the position reported is
  that of the closing token: column 6 and column 8), and not with the message
  "Expected ..., got ..." of \<^verbatim>\<open>expect\<close>. This holds for every amount of fuel that lets
  the run end, whenever the call stack has room for the one container.
\<close>

theorem trailing_comma_errors:
  \<open>parse_json (5 + k) (Suc d) ''[1,2,]'' = Some (Inl (ParseError 1 6 ''Trailing comma in array''))
   \<and> parse_json (5 + k) (Suc d) ''{"a":1,}'' = Some (Inl (ParseError 1 8 ''Trailing comma in object''))\<close>
proof (intro conjI)
  have \<open>parse_json 5 (Suc d) ''[1,2,]'' = Some (Inl (ParseError 1 6 ''Trailing comma in array''))\<close>
    by code_simp
  then show \<open>parse_json (5 + k) (Suc d) ''[1,2,]''
      = Some (Inl (ParseError 1 6 ''Trailing comma in array''))\<close>
    by (rule parse_json_mono) simp
  have \<open>parse_json 5 (Suc d) ''{"a":1,}'' = Some (Inl (ParseError 1 8 ''Trailing comma in object''))\<close>
    by code_simp
  then show \<open>parse_json (5 + k) (Suc d) ''{"a":1,}''
      = Some (Inl (ParseError 1 8 ''Trailing comma in object''))\<close>
    by (rule parse_json_mono) simp
qed

subsection \<open>Positions of errors\<close>

text \<open>
  C6 says that the input made of \<^verbatim>\<open>{\<close>, a newline, two spaces, \<^verbatim>\<open>"a"\<close>, \<^verbatim>\<open>:\<close>, a space and
  \<^verbatim>\<open>}\<close> fails with a parse error located at line 2, column 8, the position of the
  \<^verbatim>\<open>}\<close> found where a value was expected. With the newline written as one line feed the
  input has ten characters, with carriage return and line feed it has the eleven that the
  claim counts; the error and its position are the same for both, whenever the call stack
  has room for the one container.
\<close>

theorem missing_value_position:
  \<open>parse_json (4 + k) (Suc d) ''{\<newline>  "a": }''
     = Some (Inl (ParseError 2 8 ''Unexpected token: RBRACE''))
   \<and> parse_json (4 + k) (Suc d) (''{'' @ [CHR 0x0D, NEWLINE] @ ''  "a": }'')
     = Some (Inl (ParseError 2 8 ''Unexpected token: RBRACE''))
   \<and> length (''{'' @ [CHR 0x0D, NEWLINE] @ ''  "a": }'') = 11\<close>
proof (intro conjI)
  have \<open>parse_json 4 (Suc d) ''{\<newline>  "a": }''
      = Some (Inl (ParseError 2 8 ''Unexpected token: RBRACE''))\<close>
    by code_simp
  then show \<open>parse_json (4 + k) (Suc d) ''{\<newline>  "a": }''
      = Some (Inl (ParseError 2 8 ''Unexpected token: RBRACE''))\<close>
    by (rule parse_json_mono) simp
  have \<open>parse_json 4 (Suc d) (''{'' @ [CHR 0x0D, NEWLINE] @ ''  "a": }'')
      = Some (Inl (ParseError 2 8 ''Unexpected token: RBRACE''))\<close>
    by code_simp
  then show \<open>parse_json (4 + k) (Suc d) (''{'' @ [CHR 0x0D, NEWLINE] @ ''  "a": }'')
      = Some (Inl (ParseError 2 8 ''Unexpected token: RBRACE''))\<close>
    by (rule parse_json_mono) simp
  show \<open>length (''{'' @ [CHR 0x0D, NEWLINE] @ ''  "a": }'') = 11\<close>
    by simp
qed

subsection \<open>Numbers with a leading zero\<close>

text \<open>
  C7 says that \<^verbatim>\<open>01\<close> is scanned as the number 0 followed by a second number token, so
  that the document \<^verbatim>\<open>01\<close> fails with the parse error "Expected end of input". The two
  tokens are what the lexer produces when something follows the digits (lemma
  \<open>leading_zero_then_space\<close>), but on the document \<^verbatim>\<open>01\<close> itself the second number ends
  the input and the lexer raises \<^verbatim>\<open>TypeError\<close> from \<^verbatim>\<open>self.peek() in 'eE'\<close>, before the
  parser runs.
\<close>

theorem leading_zero_document_raises_TypeError:
  \<open>parse_json fuel depth ''01'' = Some (Inl TypeError)\<close>
proof -
  have "tokenize (JSONLexer_init ''01'') = Inl TypeError" by code_simp
  then show ?thesis by (simp add: parse_json_def and_then_def)
qed

lemma leading_zero_then_space:
  \<open>tokenize (JSONLexer_init ''01 '')
     = Inr [Token NUMBER (PInt 0) 1 1, Token NUMBER (PInt 1) 1 2, Token EOF PNone 1 4]\<close>
  \<open>parse_json (1 + k) d ''01 '' = Some (Inl (ParseError 1 2 ''Expected end of input''))\<close>
proof -
  show \<open>tokenize (JSONLexer_init ''01 '')
     = Inr [Token NUMBER (PInt 0) 1 1, Token NUMBER (PInt 1) 1 2, Token EOF PNone 1 4]\<close>
    by code_simp
  have "parse_json 1 d ''01 '' = Some (Inl (ParseError 1 2 ''Expected end of input''))"
    by code_simp
  then show \<open>parse_json (1 + k) d ''01 '' = Some (Inl (ParseError 1 2 ''Expected end of input''))\<close>
    by (rule parse_json_mono) simp
qed

subsection \<open>White space between tokens\<close>

text \<open>
  C3 says that white space inserted between two tokens of a well-formed document, or
  before the end of the input, does not change the result of \<^verbatim>\<open>parse_json\<close>. The
  document \<^verbatim>\<open>42\<close> and the same document followed by one space give different results:
  the first raises \<^verbatim>\<open>TypeError\<close> (a number that ends the input, as for C1), the second
  returns 42.
\<close>

theorem space_after_number_changes_result:
  \<open>parse_json (1 + k) d ''42'' = Some (Inl TypeError)
   \<and> parse_json (1 + k) d ''42 '' = Some (Inr (PInt 42))\<close>
proof -
  have "tokenize (JSONLexer_init ''42'') = Inl TypeError" by code_simp
  then have a: "parse_json (1 + k) d ''42'' = Some (Inl TypeError)"
    by (simp add: parse_json_def and_then_def)
  have "parse_json 1 d ''42 '' = Some (Inr (PInt 42))" by code_simp
  then have "parse_json (1 + k) d ''42 '' = Some (Inr (PInt 42))"
    by (rule parse_json_mono) simp
  with a show ?thesis by simp
qed

subsection \<open>Raw characters inside a string literal\<close>

text \<open>
  C10 says that inside a string literal every character other than the closing quote and
  the backslash is accepted and copied into the decoded string as it is, control characters
  such as a newline or a tab included: the lexer rejects none. For every run \<open>cs\<close> of such
  characters between two quotes, wherever the literal stands in the text and whatever the
  lexer has scanned before, \<^verbatim>\<open>tokenize_string\<close> appends one \<^verbatim>\<open>STRING\<close> token whose value
  is \<open>cs\<close>, code point by code point; and the literal alone, as a document, parses to that
  string.
\<close>

theorem unescaped_characters_copied_verbatim:
  assumes "DQUOTE \<notin> set cs" and "BACKSLASH \<notin> set cs"
  shows "(\<exists>s'. tokenize_string
            \<lparr>lx_text = pre @ DQUOTE # cs @ DQUOTE # post, lx_pos = length pre,
             lx_line = l, lx_column = c, lx_tokens = ts\<rparr> = Inr s'
         \<and> lx_tokens s' = ts @ [Token STRING (PStr (ustr cs)) l c]
         \<and> lx_pos s' = length pre + length cs + 2)
    \<and> parse_json (Suc k) d (DQUOTE # cs @ [DQUOTE]) = Some (Inr (PStr (ustr cs)))"
proof
  let ?s = "\<lparr>lx_text = pre @ DQUOTE # cs @ DQUOTE # post, lx_pos = length pre,
             lx_line = l, lx_column = c, lx_tokens = ts\<rparr>"
  have "lx_text ?s = pre @ DQUOTE # cs @ DQUOTE # post" "lx_pos ?s = length pre" by simp_all
  from tokenize_string_raw [OF this assms]
  show "\<exists>s'. tokenize_string ?s = Inr s'
         \<and> lx_tokens s' = ts @ [Token STRING (PStr (ustr cs)) l c]
         \<and> lx_pos s' = length pre + length cs + 2"
    by auto
  from tokenize_raw_string_document [OF assms]
  show "parse_json (Suc k) d (DQUOTE # cs @ [DQUOTE]) = Some (Inr (PStr (ustr cs)))"
    by (auto simp: parse_json_def and_then_def parse_single_string)
qed

theorem unescaped_characters_copied_verbatim_witness:
  "DQUOTE \<notin> set [NEWLINE, CHR 0x09, CHR 0x01, CHR ''a''] \<and>
   BACKSLASH \<notin> set [NEWLINE, CHR 0x09, CHR 0x01, CHR ''a''] \<and>
   parse_json 1 0 [DQUOTE, NEWLINE, CHR 0x09, CHR 0x01, CHR ''a'', DQUOTE]
     = Some (Inr (PStr [10, 9, 1, 97]))"
  using unescaped_characters_copied_verbatim [of "[NEWLINE, CHR 0x09, CHR 0x01, CHR ''a'']" "[]" "[]" 1 1 "[]" 0 0]
  by (simp add: ustr_def)

subsection \<open>The end-of-input token and the reads of the parser\<close>

text \<open>
  C8 says that on every token list that is not empty every read of \<^verbatim>\<open>current_token\<close> and
  of \<^verbatim>\<open>peek\<close> is within bounds. For \<^verbatim>\<open>peek\<close> this fails: its index is
  \<^verbatim>\<open>min(self.pos + offset, len(self.tokens) - 1)\<close>, bounded from above only, and with two
  tokens, the cursor at 0 and the offset \<open>-3\<close> the read \<^verbatim>\<open>self.tokens[-3]\<close> raises
  \<^verbatim>\<open>IndexError\<close>.
\<close>

theorem peek_before_first_token_raises_IndexError:
  \<open>parser_peek [Token NUMBER (PInt 1) 1 1, Token EOF PNone 1 2] 0 (- 3) = Inl IndexError\<close>
  by code_simp

text \<open>
  Claim C8, with \<^verbatim>\<open>peek\<close> as the code has it. Whenever \<^verbatim>\<open>tokenize\<close> returns, its list ends
  with one \<^verbatim>\<open>EOF\<close> token and holds no other. On every token list that is not empty,
  \<^verbatim>\<open>current_token\<close> returns a token of the list; \<^verbatim>\<open>peek\<close> returns a token of the list when
  \<^verbatim>\<open>self.pos + offset\<close> is at least \<^verbatim>\<open>-len(self.tokens)\<close>, so for every offset that is not
  negative (an index from \<^verbatim>\<open>-len(self.tokens)\<close> to \<open>-1\<close> counts from the end of the list),
  and raises \<^verbatim>\<open>IndexError\<close> when \<^verbatim>\<open>self.pos + offset\<close> is lower; \<^verbatim>\<open>advance\<close> with the cursor
  on the last token (or beyond) returns a token of the list and leaves the cursor where it
  is; and \<^verbatim>\<open>parse\<close>, which never calls \<^verbatim>\<open>peek\<close>, never raises \<^verbatim>\<open>IndexError\<close>. So
  \<^verbatim>\<open>parse_json\<close> raises \<^verbatim>\<open>IndexError\<close> on no text at all, well-formed or not, and the text
  \<^verbatim>\<open>{"a":\<close> fails with the parse error ``Unexpected token: EOF'' at line 1, column 6 (with
  fuel 4 or more and room on the call stack for the one container).
\<close>

theorem token_list_reads_in_bounds:
  \<open>(tokenize (JSONLexer_init json_string) = Inr toks \<longrightarrow>
      (\<exists>ts l c. toks = ts @ [Token EOF PNone l c] \<and> (\<forall>t \<in> set ts. ttype t \<noteq> EOF)))
   \<and> (tokens \<noteq> [] \<longrightarrow>
        (\<exists>t \<in> set tokens. current_token tokens pos = Inr t)
      \<and> (- int (length tokens) \<le> int pos + offset \<longrightarrow>
           (\<exists>t \<in> set tokens. parser_peek tokens pos offset = Inr t))
      \<and> (int pos + low < - int (length tokens) \<longrightarrow>
           parser_peek tokens pos low = Inl IndexError)
      \<and> (length tokens - 1 \<le> pos \<longrightarrow> (\<exists>t \<in> set tokens. parser_advance tokens pos = Inr (t, pos)))
      \<and> parse fuel depth tokens \<noteq> Some (Inl IndexError))
   \<and> parse_json fuel depth json_string \<noteq> Some (Inl IndexError)
   \<and> parse_json (4 + k) (Suc d) ''{"a":'' = Some (Inl (ParseError 1 6 ''Unexpected token: EOF''))\<close>
proof (intro conjI impI)
  assume "tokenize (JSONLexer_init json_string) = Inr toks"
  then show "\<exists>ts l c. toks = ts @ [Token EOF PNone l c] \<and> (\<forall>t \<in> set ts. ttype t \<noteq> EOF)"
    by (rule tokenize_ends_with_one_EOF)
next
  assume ne: "tokens \<noteq> []"
  then have "min pos (length tokens - 1) < length tokens" by (cases tokens) auto
  then show "\<exists>t \<in> set tokens. current_token tokens pos = Inr t"
    by (simp add: current_token_nonempty [OF ne])
next
  assume ne: "tokens \<noteq> []" and off: "- int (length tokens) \<le> int pos + offset"
  let ?i = "min (int pos + offset) (int (length tokens) - 1)"
  from ne have len: "0 < int (length tokens)" by simp
  then have upper: "?i < int (length tokens)" by linarith
  from off len have lower: "- int (length tokens) \<le> ?i" by linarith
  show "\<exists>t \<in> set tokens. parser_peek tokens pos offset = Inr t"
  proof (cases "0 \<le> ?i")
    case True
    with upper have "nat ?i < length tokens" by linarith
    then have "tokens ! nat ?i \<in> set tokens" by (rule nth_mem)
    moreover from True upper have "parser_peek tokens pos offset = Inr (tokens ! nat ?i)"
      unfolding parser_peek_def py_getitem_def by simp
    ultimately show ?thesis by simp
  next
    case False
    with lower have "nat (int (length tokens) + ?i) < length tokens" by linarith
    then have "tokens ! nat (int (length tokens) + ?i) \<in> set tokens" by (rule nth_mem)
    moreover from False lower
    have "parser_peek tokens pos offset = Inr (tokens ! nat (int (length tokens) + ?i))"
      unfolding parser_peek_def py_getitem_def by simp
    ultimately show ?thesis by simp
  qed
next
  assume "tokens \<noteq> []" and below: "int pos + low < - int (length tokens)"
  then have "0 < int (length tokens)" by simp
  with below have "min (int pos + low) (int (length tokens) - 1) = int pos + low" by linarith
  with below show "parser_peek tokens pos low = Inl IndexError"
    unfolding parser_peek_def py_getitem_def by simp
next
  assume ne: "tokens \<noteq> []" and "length tokens - 1 \<le> pos"
  moreover from ne have "min pos (length tokens - 1) < length tokens" by (cases tokens) auto
  ultimately show "\<exists>t \<in> set tokens. parser_advance tokens pos = Inr (t, pos)"
    by (auto simp: parser_advance_nonempty [OF ne])
next
  assume "tokens \<noteq> []"
  from parse_safe [OF this] show "parse fuel depth tokens \<noteq> Some (Inl IndexError)"
    by (simp add: no_index_error_def)
next
  from parse_json_safe show "parse_json fuel depth json_string \<noteq> Some (Inl IndexError)"
    by (simp add: no_index_error_def)
next
  have \<open>parse_json 4 (Suc d) ''{"a":'' = Some (Inl (ParseError 1 6 ''Unexpected token: EOF''))\<close>
    by code_simp
  then show \<open>parse_json (4 + k) (Suc d) ''{"a":''
      = Some (Inl (ParseError 1 6 ''Unexpected token: EOF''))\<close>
    by (rule parse_json_mono) simp
qed

theorem token_list_reads_in_bounds_witness:
  \<open>tokenize (JSONLexer_init ''[1]'')
     = Inr [Token LBRACKET (PStr (ustr ''['')) 1 1, Token NUMBER (PInt 1) 1 2,
            Token RBRACKET (PStr (ustr '']'')) 1 3, Token EOF PNone 1 4]
   \<and> [Token NUMBER (PInt 1) 1 1, Token EOF PNone 1 2] \<noteq> []
   \<and> - int (length [Token NUMBER (PInt 1) 1 1, Token EOF PNone 1 2]) \<le> int 1 + (- 2)
   \<and> int 1 + (- 4) < - int (length [Token NUMBER (PInt 1) 1 1, Token EOF PNone 1 2])
   \<and> length [Token NUMBER (PInt 1) 1 1, Token EOF PNone 1 2] - 1 \<le> (1 :: nat)
   \<and> current_token [Token NUMBER (PInt 1) 1 1, Token EOF PNone 1 2] 1 = Inr (Token EOF PNone 1 2)
   \<and> parser_peek [Token NUMBER (PInt 1) 1 1, Token EOF PNone 1 2] 1 (- 2)
       = Inr (Token EOF PNone 1 2)
   \<and> parser_peek [Token NUMBER (PInt 1) 1 1, Token EOF PNone 1 2] 1 (- 4) = Inl IndexError
   \<and> parser_advance [Token NUMBER (PInt 1) 1 1, Token EOF PNone 1 2] 1
       = Inr (Token EOF PNone 1 2, 1)
   \<and> parse 3 1 [Token NUMBER (PInt 1) 1 1, Token EOF PNone 1 2] \<noteq> Some (Inl IndexError)
   \<and> parse_json 3 1 ''[1]'' \<noteq> Some (Inl IndexError)\<close>
proof -
  have tok: \<open>tokenize (JSONLexer_init ''[1]'')
     = Inr [Token LBRACKET (PStr (ustr ''['')) 1 1, Token NUMBER (PInt 1) 1 2,
            Token RBRACKET (PStr (ustr '']'')) 1 3, Token EOF PNone 1 4]\<close>
    by code_simp
  have rd: \<open>current_token [Token NUMBER (PInt 1) 1 1, Token EOF PNone 1 2] 1 = Inr (Token EOF PNone 1 2)\<close>
    \<open>parser_peek [Token NUMBER (PInt 1) 1 1, Token EOF PNone 1 2] 1 (- 2)
       = Inr (Token EOF PNone 1 2)\<close>
    \<open>parser_advance [Token NUMBER (PInt 1) 1 1, Token EOF PNone 1 2] 1
       = Inr (Token EOF PNone 1 2, 1)\<close>
    by code_simp+
  from token_list_reads_in_bounds
    [of "''[1]''" "[Token LBRACKET (PStr (ustr ''['')) 1 1, Token NUMBER (PInt 1) 1 2,
            Token RBRACKET (PStr (ustr '']'')) 1 3, Token EOF PNone 1 4]"
        "[Token NUMBER (PInt 1) 1 1, Token EOF PNone 1 2]" 1 "- 2" "- 4" 3 1 0 0]
  have "parser_peek [Token NUMBER (PInt 1) 1 1, Token EOF PNone 1 2] 1 (- 4) = Inl IndexError"
    and "parse 3 1 [Token NUMBER (PInt 1) 1 1, Token EOF PNone 1 2] \<noteq> Some (Inl IndexError)"
    and "parse_json 3 1 ''[1]'' \<noteq> Some (Inl IndexError)"
    by simp_all
  with tok rd show ?thesis by simp
qed

subsection \<open>Duplicate keys\<close>

text \<open>
  C5 says that \<^verbatim>\<open>{"a":1,"a":2}\<close> parses to the object with the one key \<^verbatim>\<open>a\<close> and the value
  2, and that in every well-formed object document a later member overwrites the value of
  an earlier member with the same key, the key keeping its first position. The code does
  so only while the call stack has room for the nesting of the document: nothing in
  \<^verbatim>\<open>parse_value\<close>, \<^verbatim>\<open>parse_object\<close> and \<^verbatim>\<open>parse_array\<close> bounds their recursion, and on a
  document nested deeper than the stack allows no mapping is returned at all, the run ends
  in \<^verbatim>\<open>RecursionError\<close>. So it does on \<^verbatim>\<open>{"a":{"a":1,"a":2}}\<close> when there is room for one
  container only, and on \<^verbatim>\<open>{"a":1,"a":2}\<close> inside 599 objects \<^verbatim>\<open>{"a": ... }\<close> when there is
  room for 499 containers, which is more than the recursion limit of 1000 frames leaves
  with two frames for each container.
\<close>

theorem deep_object_raises_RecursionError:
  \<open>parse_json 12 1 ''{"a":{"a":1,"a":2}}'' = Some (Inl RecursionError)
   \<and> parse (2 * length (document_tokens (deep_object 599))) 499
        (document_tokens (deep_object 599)) = Some (Inl RecursionError)\<close>
proof
  show \<open>parse_json 12 1 ''{"a":{"a":1,"a":2}}'' = Some (Inl RecursionError)\<close>
    by code_simp
  show "parse (2 * length (document_tokens (deep_object 599))) 499
        (document_tokens (deep_object 599)) = Some (Inl RecursionError)"
    by (simp add: parse_well_formed [OF type_and_value_document_tokens order_refl]
        nesting_deep_object)
qed

text \<open>
  Claim C5, for the documents that the call stack has room for. \<^verbatim>\<open>parse_json\<close> on
  \<^verbatim>\<open>{"a":1,"a":2}\<close> returns the \<^verbatim>\<open>dict\<close> with the single key \<^verbatim>\<open>a\<close> and the value 2 (with
  fuel 5 or more and room for the one container). In general, on the tokens of any
  well-formed object document followed by \<^verbatim>\<open>EOF\<close>, with room on the call stack for the
  nesting of the document and fuel at least twice the number of tokens, \<^verbatim>\<open>parse\<close> returns a
  \<^verbatim>\<open>dict\<close> whose keys are the keys of the members in the order of their first
  occurrences, and in which a key has the value of the last member with that key
  (\<open>map_of\<close> finds the first pair with a key, here in the reversed list of members).
\<close>

theorem duplicate_key_last_value_first_position:
  \<open>parse_json (5 + n) (Suc d) ''{"a":1,"a":2}''
     = Some (Inr (PDict [(PStr (ustr ''a''), PInt 2)]))
   \<and> (map type_and_value toks = tokens_of (JObject ms) @ [(EOF, PNone)] \<longrightarrow>
        2 * length toks \<le> fuel \<longrightarrow> nesting (JObject ms) \<le> depth \<longrightarrow>
        (\<exists>obj. parse fuel depth toks = Some (Inr (PDict obj))
           \<and> map fst obj = first_seen (map (\<lambda>(k, v). PStr k) ms)
           \<and> map_of obj = map_of (rev (map (\<lambda>(k, v). (PStr k, value_of v)) ms))))\<close>
proof (intro conjI impI)
  have \<open>parse_json 5 (Suc d) ''{"a":1,"a":2}''
      = Some (Inr (PDict [(PStr (ustr ''a''), PInt 2)]))\<close>
    by code_simp
  then show \<open>parse_json (5 + n) (Suc d) ''{"a":1,"a":2}''
      = Some (Inr (PDict [(PStr (ustr ''a''), PInt 2)]))\<close>
    by (rule parse_json_mono) simp
next
  let ?obj = "foldl (\<lambda>obj (k, v). dict_update obj k v) [] (map member_value ms)"
  assume wf: "map type_and_value toks = tokens_of (JObject ms) @ [(EOF, PNone)]"
    and fuel: "2 * length toks \<le> fuel" and room: "nesting (JObject ms) \<le> depth"
  from parse_well_formed [OF wf fuel, of depth] room
  have "parse fuel depth toks = Some (Inr (value_of (JObject ms)))"
    by (simp only: if_True)
  then have "parse fuel depth toks = Some (Inr (PDict ?obj))" by simp
  moreover have "map fst ?obj = first_seen (map (\<lambda>(k, v). PStr k) ms)"
    by (simp only: foldl_dict_update_keys member_value_keys)
  moreover have "map_of ?obj = map_of (rev (map member_value ms))"
    by (rule foldl_dict_update_map_of)
  ultimately show "\<exists>obj. parse fuel depth toks = Some (Inr (PDict obj))
      \<and> map fst obj = first_seen (map (\<lambda>(k, v). PStr k) ms)
      \<and> map_of obj = map_of (rev (map member_value ms))"
    by blast
qed

theorem duplicate_key_last_value_first_position_witness:
  \<open>tokenize (JSONLexer_init ''{"a":1,"b":[],"a":2}'')
     = Inr [Token LBRACE (PStr (ustr ''{'')) 1 1, Token STRING (PStr (ustr ''a'')) 1 2,
            Token COLON (PStr (ustr '':'')) 1 5, Token NUMBER (PInt 1) 1 6,
            Token COMMA (PStr (ustr '','')) 1 7, Token STRING (PStr (ustr ''b'')) 1 8,
            Token COLON (PStr (ustr '':'')) 1 11, Token LBRACKET (PStr (ustr ''['')) 1 12,
            Token RBRACKET (PStr (ustr '']'')) 1 13, Token COMMA (PStr (ustr '','')) 1 14,
            Token STRING (PStr (ustr ''a'')) 1 15, Token COLON (PStr (ustr '':'')) 1 18,
            Token NUMBER (PInt 2) 1 19, Token RBRACE (PStr (ustr ''}'')) 1 20,
            Token EOF PNone 1 21]
   \<and> (\<exists>obj. parse 30 2
           [Token LBRACE (PStr (ustr ''{'')) 1 1, Token STRING (PStr (ustr ''a'')) 1 2,
            Token COLON (PStr (ustr '':'')) 1 5, Token NUMBER (PInt 1) 1 6,
            Token COMMA (PStr (ustr '','')) 1 7, Token STRING (PStr (ustr ''b'')) 1 8,
            Token COLON (PStr (ustr '':'')) 1 11, Token LBRACKET (PStr (ustr ''['')) 1 12,
            Token RBRACKET (PStr (ustr '']'')) 1 13, Token COMMA (PStr (ustr '','')) 1 14,
            Token STRING (PStr (ustr ''a'')) 1 15, Token COLON (PStr (ustr '':'')) 1 18,
            Token NUMBER (PInt 2) 1 19, Token RBRACE (PStr (ustr ''}'')) 1 20,
            Token EOF PNone 1 21] = Some (Inr (PDict obj))
        \<and> map fst obj = [PStr (ustr ''a''), PStr (ustr ''b'')]
        \<and> map_of obj (PStr (ustr ''a'')) = Some (PInt 2)
        \<and> map_of obj (PStr (ustr ''b'')) = Some (PList []))\<close>
proof -
  let ?toks = \<open>[Token LBRACE (PStr (ustr ''{'')) 1 1, Token STRING (PStr (ustr ''a'')) 1 2,
            Token COLON (PStr (ustr '':'')) 1 5, Token NUMBER (PInt 1) 1 6,
            Token COMMA (PStr (ustr '','')) 1 7, Token STRING (PStr (ustr ''b'')) 1 8,
            Token COLON (PStr (ustr '':'')) 1 11, Token LBRACKET (PStr (ustr ''['')) 1 12,
            Token RBRACKET (PStr (ustr '']'')) 1 13, Token COMMA (PStr (ustr '','')) 1 14,
            Token STRING (PStr (ustr ''a'')) 1 15, Token COLON (PStr (ustr '':'')) 1 18,
            Token NUMBER (PInt 2) 1 19, Token RBRACE (PStr (ustr ''}'')) 1 20,
            Token EOF PNone 1 21]\<close>
  let ?ms = \<open>[(ustr ''a'', JNumber (PInt 1)), (ustr ''b'', JArray []),
              (ustr ''a'', JNumber (PInt 2))]\<close>
  have tok: \<open>tokenize (JSONLexer_init ''{"a":1,"b":[],"a":2}'') = Inr ?toks\<close>
    by code_simp
  have wf: "map type_and_value ?toks = tokens_of (JObject ?ms) @ [(EOF, PNone)]"
    by (simp add: type_and_value_def member_tokens_def)
  have fuel: "2 * length ?toks \<le> 30" by simp
  have room: "nesting (JObject ?ms) \<le> 2" by simp
  from duplicate_key_last_value_first_position [of 0 0 ?toks ?ms 30 2] wf fuel room
  obtain obj where "parse 30 2 ?toks = Some (Inr (PDict obj))"
    and "map fst obj = first_seen (map (\<lambda>(k, v). PStr k) ?ms)"
    and "map_of obj = map_of (rev (map (\<lambda>(k, v). (PStr k, value_of v)) ?ms))"
    by blast
  then have obj: "parse 30 2 ?toks = Some (Inr (PDict obj))"
    "map fst obj = [PStr (ustr ''a''), PStr (ustr ''b'')]"
    "map_of obj (PStr (ustr ''a'')) = Some (PInt 2)"
    "map_of obj (PStr (ustr ''b'')) = Some (PList [])"
    by (simp_all add: first_seen_def ustr_def)
  have "\<exists>obj. parse 30 2 ?toks = Some (Inr (PDict obj))
      \<and> map fst obj = [PStr (ustr ''a''), PStr (ustr ''b'')]
      \<and> map_of obj (PStr (ustr ''a'')) = Some (PInt 2)
      \<and> map_of obj (PStr (ustr ''b'')) = Some (PList [])"
    by (intro exI conjI) (rule obj)+
  with tok show ?thesis by (rule conjI)
qed

end
